theory Spec2Isabelle
  imports Main "HOL-Library.Word"
begin

section \<open>The mapped area\<close>

text \<open>
  The functions of \<^verbatim>\<open>xpra/net/mmap_pipe.py\<close> work on a Python \<^verbatim>\<open>mmap\<close> object: a
  mutable byte buffer of fixed length with a file position. Offsets, lengths and
  token values are Python integers, hence \<^typ>\<open>int\<close>; every place where the
  interpreter raises is a branch that returns the exception as a value, together
  with the area as it was left at that moment.
\<close>

type_synonym byte = "8 word"

datatype py_error = ValueError | AssertionError | OverflowError | TypeError

record mmap_obj =
  area_bytes :: "byte list"
  area_pos :: nat

text \<open>Overwriting and reading a run of cells of a buffer.\<close>

definition write_at :: "'a list \<Rightarrow> nat \<Rightarrow> 'a list \<Rightarrow> 'a list" where
  "write_at xs p ys = take p xs @ ys @ drop (p + length ys) xs"

definition read_at :: "'a list \<Rightarrow> nat \<Rightarrow> nat \<Rightarrow> 'a list" where
  "read_at xs p n = take n (drop p xs)"

text \<open>
  \<^verbatim>\<open>mmap.seek(pos)\<close> raises \<^verbatim>\<open>ValueError\<close> outside \<open>[0, size]\<close>;
  \<^verbatim>\<open>mmap.write(data)\<close> raises \<^verbatim>\<open>ValueError\<close>, writing nothing, when the data
  does not fit between the position and the end; \<^verbatim>\<open>mmap.read(n)\<close> returns at most
  \<open>n\<close> bytes, and everything up to the end when \<open>n\<close> is negative. Its argument
  is converted to the signed size type of the platform, 64 bits wide here:
  outside that range the read raises \<^verbatim>\<open>OverflowError\<close> and does nothing.
\<close>

definition mmap_seek :: "mmap_obj \<Rightarrow> int \<Rightarrow> py_error + mmap_obj" where
  "mmap_seek area p =
     (if p < 0 \<or> int (length (area_bytes area)) < p then Inl ValueError
      else Inr (area\<lparr>area_pos := nat p\<rparr>))"

definition mmap_write_bytes :: "mmap_obj \<Rightarrow> byte list \<Rightarrow> py_error + mmap_obj" where
  "mmap_write_bytes area bs =
     (if length (area_bytes area) < area_pos area + length bs then Inl ValueError
      else Inr (area\<lparr>area_bytes := write_at (area_bytes area) (area_pos area) bs,
                      area_pos := area_pos area + length bs\<rparr>))"

definition fits_ssize_t :: "int \<Rightarrow> bool" where
  "fits_ssize_t n = (- (2 ^ 63) \<le> n \<and> n < 2 ^ 63)"

definition mmap_read_bytes :: "mmap_obj \<Rightarrow> int \<Rightarrow> py_error + byte list \<times> mmap_obj" where
  "mmap_read_bytes area n =
     (if \<not> fits_ssize_t n then Inl OverflowError
      else
        (let remaining = length (area_bytes area) - area_pos area;
             k = (if n < 0 then remaining else min (nat n) remaining)
         in Inr (read_at (area_bytes area) (area_pos area) k,
                 area\<lparr>area_pos := area_pos area + k\<rparr>)))"

text \<open>
  \<^verbatim>\<open>ctypes\<close>: \<^verbatim>\<open>T.from_buffer(area, offset)\<close> is a cell of \<open>sizeof(T)\<close> bytes
  aliasing the area at \<open>offset\<close>; it raises \<^verbatim>\<open>ValueError\<close> for a negative offset
  and for a buffer that is too small. The cell is represented by its offset.
\<close>

definition from_buffer :: "mmap_obj \<Rightarrow> nat \<Rightarrow> int \<Rightarrow> py_error + nat" where
  "from_buffer area sz offset =
     (if offset < 0 then Inl ValueError
      else if int (length (area_bytes area)) < offset + int sz then Inl ValueError
      else Inr (nat offset))"

text \<open>A \<^verbatim>\<open>c_ubyte\<close> cell: one byte.\<close>

definition ubyte_value :: "mmap_obj \<Rightarrow> nat \<Rightarrow> int" where
  "ubyte_value area p = uint (area_bytes area ! p)"

definition ubyte_set :: "mmap_obj \<Rightarrow> nat \<Rightarrow> int \<Rightarrow> mmap_obj" where
  "ubyte_set area p v = area\<lparr>area_bytes := (area_bytes area)[p := word_of_int v]\<rparr>"

text \<open>
  A \<^verbatim>\<open>c_uint32\<close> cell: four bytes. Storing a Python integer keeps its low 32 bits
  (ctypes does not check for overflow). The bytes are laid out least significant
  first, the native order of the platforms the program runs on; the properties below
  only use that a load returns what the last store kept.
\<close>

fun le_int :: "byte list \<Rightarrow> int" where
  "le_int [] = 0"
| "le_int (b # bs) = uint b + 256 * le_int bs"

fun le_bytes :: "nat \<Rightarrow> int \<Rightarrow> byte list" where
  "le_bytes 0 v = []"
| "le_bytes (Suc n) v = word_of_int (v mod 256) # le_bytes n (v div 256)"

definition uint32_value :: "mmap_obj \<Rightarrow> nat \<Rightarrow> int" where
  "uint32_value area p = le_int (read_at (area_bytes area) p 4)"

definition uint32_set :: "mmap_obj \<Rightarrow> nat \<Rightarrow> int \<Rightarrow> mmap_obj" where
  "uint32_set area p v =
     area\<lparr>area_bytes := write_at (area_bytes area) p (le_bytes 4 (v mod 2 ^ 32))\<rparr>"

section \<open>The token\<close>

text \<open>
  \<^verbatim>\<open>write_mmap_token(mmap_area, token, index, count)\<close>: the loop over
  \<^verbatim>\<open>range(0, count)\<close> pokes \<^verbatim>\<open>v % 256\<close> at \<open>index + i\<close> and shifts \<open>v\<close> right by 8;
  the value left over is returned to the final assertion.
\<close>

fun write_token_loop :: "mmap_obj \<Rightarrow> int \<Rightarrow> int \<Rightarrow> nat \<Rightarrow> nat \<Rightarrow> (py_error + int) \<times> mmap_obj" where
  "write_token_loop area v index i 0 = (Inr v, area)"
| "write_token_loop area v index i (Suc n) =
     (case from_buffer area 1 (index + int i) of
        Inl e \<Rightarrow> (Inl e, area)
      | Inr poke \<Rightarrow>
          write_token_loop (ubyte_set area poke (v mod 256)) (drop_bit 8 v) index (Suc i) n)"

definition write_mmap_token :: "mmap_obj \<Rightarrow> int \<Rightarrow> int \<Rightarrow> int \<Rightarrow> (py_error + unit) \<times> mmap_obj" where
  "write_mmap_token mmap_area token index count =
     (if \<not> count > 0 then (Inl AssertionError, mmap_area)
      else case write_token_loop mmap_area token index 0 (nat count) of
             (Inl e, area') \<Rightarrow> (Inl e, area')
           | (Inr v, area') \<Rightarrow>
               if v = 0 then (Inr (), area') else (Inl AssertionError, area'))"

text \<open>
  \<^verbatim>\<open>read_mmap_token(mmap_area, index, count)\<close>: the loop shifts \<open>v\<close> left by 8 and
  adds the byte peeked at \<open>index + count - 1 - i\<close>.
\<close>

fun read_token_loop :: "mmap_obj \<Rightarrow> int \<Rightarrow> int \<Rightarrow> int \<Rightarrow> nat \<Rightarrow> nat \<Rightarrow> py_error + int" where
  "read_token_loop area v index count i 0 = Inr v"
| "read_token_loop area v index count i (Suc n) =
     (case from_buffer area 1 (index + count - 1 - int i) of
        Inl e \<Rightarrow> Inl e
      | Inr peek \<Rightarrow>
          read_token_loop area (push_bit 8 v + ubyte_value area peek) index count (Suc i) n)"

definition read_mmap_token :: "mmap_obj \<Rightarrow> int \<Rightarrow> int \<Rightarrow> py_error + int" where
  "read_mmap_token mmap_area index count =
     (if \<not> count > 0 then Inl AssertionError
      else read_token_loop mmap_area 0 index count 0 (nat count))"

section \<open>Reading and writing payloads\<close>

text \<open>\<^verbatim>\<open>int_from_buffer(mmap_area, pos)\<close> is \<^verbatim>\<open>c_uint32.from_buffer(mmap_area, pos)\<close>.\<close>

definition int_from_buffer :: "mmap_obj \<Rightarrow> int \<Rightarrow> py_error + nat" where
  "int_from_buffer mmap_area p = from_buffer mmap_area 4 p"

text \<open>
  \<^verbatim>\<open>mmap_read(mmap_area, *descr_data)\<close>. The loop of the general case seeks, reads
  and stores \<open>offset + length\<close> in the \<open>data_start\<close> cell for each pair in turn;
  a read that raises leaves the loop before the store of its pair.
\<close>

fun read_chunks :: "mmap_obj \<Rightarrow> nat \<Rightarrow> (int \<times> int) list \<Rightarrow> byte list list
    \<Rightarrow> (py_error + byte list list) \<times> mmap_obj" where
  "read_chunks area data_start [] data = (Inr data, area)"
| "read_chunks area data_start ((offset, len) # rest) data =
     (case mmap_seek area offset of
        Inl e \<Rightarrow> (Inl e, area)
      | Inr a1 \<Rightarrow>
          (case mmap_read_bytes a1 len of
             Inl e \<Rightarrow> (Inl e, a1)
           | Inr (bs, a2) \<Rightarrow>
               read_chunks (uint32_set a2 data_start (offset + len)) data_start rest
                 (data @ [bs])))"

text \<open>
  With exactly one pair the result is a \<^verbatim>\<open>c_char * length\<close> array aliasing the
  area: building the array type raises \<^verbatim>\<open>OverflowError\<close> for a length outside the
  signed size type and \<^verbatim>\<open>ValueError\<close> for a negative length, then \<open>data_start\<close>
  is stored, and only then \<^verbatim>\<open>from_buffer\<close> checks the range. The array is
  represented by the bytes it shows when it is returned.
\<close>

definition mmap_read :: "mmap_obj \<Rightarrow> (int \<times> int) list \<Rightarrow> (py_error + byte list) \<times> mmap_obj" where
  "mmap_read mmap_area descr_data =
     (case int_from_buffer mmap_area 0 of
        Inl e \<Rightarrow> (Inl e, mmap_area)
      | Inr data_start \<Rightarrow>
          (case descr_data of
             [(offset, len)] \<Rightarrow>
               if \<not> fits_ssize_t len then (Inl OverflowError, mmap_area)
               else if len < 0 then (Inl ValueError, mmap_area)
               else
                 (let a1 = uint32_set mmap_area data_start (offset + len) in
                  case from_buffer a1 (nat len) offset of
                    Inl e \<Rightarrow> (Inl e, a1)
                  | Inr p \<Rightarrow> (Inr (read_at (area_bytes a1) p (nat len)), a1))
           | _ \<Rightarrow>
               (case read_chunks mmap_area data_start descr_data [] of
                  (Inl e, a1) \<Rightarrow> (Inl e, a1)
                | (Inr data, a1) \<Rightarrow> (Inr (concat data), a1))))"

text \<open>Python slices \<^verbatim>\<open>data[:k]\<close> and \<^verbatim>\<open>data[k:]\<close>; a negative \<open>k\<close> counts from the end.\<close>

definition slice_to :: "'a list \<Rightarrow> int \<Rightarrow> 'a list" where
  "slice_to xs k = (if k < 0 then take (nat (int (length xs) + k)) xs else take (nat k) xs)"

definition slice_from :: "'a list \<Rightarrow> int \<Rightarrow> 'a list" where
  "slice_from xs k = (if k < 0 then drop (nat (int (length xs) + k)) xs else drop (nat k) xs)"

text \<open>
  The free-space accounting of \<^verbatim>\<open>mmap_write\<close> (the clamping of the two cursors and
  the \<^verbatim>\<open>if end<start\<close> statement), as \<open>(start, end, chunk, available)\<close>.
\<close>

definition accounting :: "int \<Rightarrow> int \<Rightarrow> int \<Rightarrow> int \<times> int \<times> int \<times> int" where
  "accounting mmap_size data_start_value data_end_value =
     (let start = max 8 data_start_value;
          endp = max 8 data_end_value
      in if endp < start then
           (let available = start - endp; chunk = available
            in (start, endp, chunk, available))
         else
           (let chunk = mmap_size - endp; available = chunk + (start - 8)
            in (start, endp, chunk, available)))"

text \<open>
  \<^verbatim>\<open>mmap_write(mmap_area, mmap_size, data)\<close> returns \<open>(chunks, mmap_free_size)\<close>,
  with \<^verbatim>\<open>None\<close> for the chunks in two cases that differ by the warning they log:
  \<open>TooSmall\<close> stands for \<^verbatim>\<open>None\<close> after "mmap area is too small!", \<open>Full\<close> for
  \<^verbatim>\<open>None\<close> after "mmap area is full!".

  \<^verbatim>\<open>available>=(mmap_size/2)\<close> compares an integer with a float that is exact
  for every size below \<open>2^53\<close>; over the integers it reads
  \<open>mmap_size \<le> 2 * available\<close>.
\<close>

datatype write_outcome = Chunks "(int \<times> int) list" | TooSmall | Full

definition mmap_write :: "mmap_obj \<Rightarrow> int \<Rightarrow> byte list
    \<Rightarrow> (py_error + write_outcome \<times> int) \<times> mmap_obj" where
  "mmap_write mmap_area mmap_size data =
     (case int_from_buffer mmap_area 0 of
        Inl e \<Rightarrow> (Inl e, mmap_area)
      | Inr mmap_data_start \<Rightarrow>
     (case int_from_buffer mmap_area 4 of
        Inl e \<Rightarrow> (Inl e, mmap_area)
      | Inr mmap_data_end \<Rightarrow>
     (case accounting mmap_size (uint32_value mmap_area mmap_data_start)
             (uint32_value mmap_area mmap_data_end) of
        (start, endp, chunk, available) \<Rightarrow>
     (let l = int (length data);
          mmap_free_size = available - l
      in if l > mmap_size - 8 then (Inr (TooSmall, mmap_free_size), mmap_area)
         else if mmap_free_size \<le> 0 then (Inr (Full, mmap_free_size), mmap_area)
         else if l < chunk then
           (case mmap_seek mmap_area endp of
              Inl e \<Rightarrow> (Inl e, mmap_area)
            | Inr a1 \<Rightarrow>
           (case mmap_write_bytes a1 data of
              Inl e \<Rightarrow> (Inl e, a1)
            | Inr a2 \<Rightarrow>
                (Inr (Chunks [(endp, l)], mmap_free_size),
                 uint32_set a2 mmap_data_end (endp + l))))
         else if mmap_size \<le> 2 * available \<and> available \<ge> l * 3 \<and> l < start - 8 then
           (case mmap_seek mmap_area 8 of
              Inl e \<Rightarrow> (Inl e, mmap_area)
            | Inr a1 \<Rightarrow>
           (case mmap_write_bytes a1 data of
              Inl e \<Rightarrow> (Inl e, a1)
            | Inr a2 \<Rightarrow>
                (Inr (Chunks [(8, l)], mmap_free_size),
                 uint32_set a2 mmap_data_end (8 + l))))
         else
           (case mmap_seek mmap_area endp of
              Inl e \<Rightarrow> (Inl e, mmap_area)
            | Inr a1 \<Rightarrow>
           (case mmap_write_bytes a1 (slice_to data chunk) of
              Inl e \<Rightarrow> (Inl e, a1)
            | Inr a2 \<Rightarrow>
           (case mmap_seek a2 8 of
              Inl e \<Rightarrow> (Inl e, a2)
            | Inr a3 \<Rightarrow>
           (case mmap_write_bytes a3 (slice_from data chunk) of
              Inl e \<Rightarrow> (Inl e, a3)
            | Inr a4 \<Rightarrow>
                (let l2 = l - chunk
                 in (Inr (Chunks [(endp, chunk), (8, l2)], mmap_free_size),
                     uint32_set a4 mmap_data_end (8 + l2)))))))))))"

text \<open>The two cursors of an area, as \<^verbatim>\<open>mmap_write\<close> and \<^verbatim>\<open>mmap_read\<close> load them.\<close>

definition load_data_start :: "mmap_obj \<Rightarrow> int" where
  "load_data_start area = uint32_value area 0"

definition load_data_end :: "mmap_obj \<Rightarrow> int" where
  "load_data_end area = uint32_value area 4"

text \<open>
  What a caller observes: whether \<^verbatim>\<open>mmap_write\<close> returned chunks, and the space
  that the accounting finds available in an area.
\<close>

definition returns_chunks :: "(py_error + write_outcome \<times> int) \<times> mmap_obj \<Rightarrow> bool" where
  "returns_chunks r = (case fst r of Inr (Chunks d, f) \<Rightarrow> True | _ \<Rightarrow> False)"

definition available_space :: "int \<Rightarrow> mmap_obj \<Rightarrow> int" where
  "available_space n area =
     (case accounting n (load_data_start area) (load_data_end area) of
        (start, endp, chunk, available) \<Rightarrow> available)"

text \<open>
  The accounting in the words of the specification: the capacity of the first chunk
  and the available space, from the size of the region and the two stored cursors.
\<close>

definition spec_first_chunk_capacity :: "int \<Rightarrow> int \<Rightarrow> int \<Rightarrow> int" where
  "spec_first_chunk_capacity n ds de =
     (if max 8 de < max 8 ds then max 8 ds - max 8 de else n - max 8 de)"

definition spec_available :: "int \<Rightarrow> int \<Rightarrow> int \<Rightarrow> int" where
  "spec_available n ds de =
     (if max 8 de < max 8 ds then max 8 ds - max 8 de
      else spec_first_chunk_capacity n ds de + (max 8 ds - 8))"

section \<open>A producer and a consumer\<close>

text \<open>
  One producer calls \<^verbatim>\<open>mmap_write\<close> and hands each descriptor it gets to the one
  consumer, which calls \<^verbatim>\<open>mmap_read\<close> on the descriptors in the order they were
  produced, each once. \<open>pending\<close> holds the descriptors written and not yet read.
\<close>

datatype action = Write "byte list" | Read

fun step :: "int \<Rightarrow> mmap_obj \<times> (int \<times> int) list list \<Rightarrow> action
    \<Rightarrow> mmap_obj \<times> (int \<times> int) list list" where
  "step mmap_size (area, pending) (Write data) =
     (case mmap_write area mmap_size data of
        (Inr (Chunks chunks, free), area') \<Rightarrow> (area', pending @ [chunks])
      | (_, area') \<Rightarrow> (area', pending))"
| "step mmap_size (area, pending) Read =
     (case pending of
        [] \<Rightarrow> (area, [])
      | chunks # rest \<Rightarrow> (snd (mmap_read area chunks), rest))"

definition run :: "int \<Rightarrow> mmap_obj \<Rightarrow> action list \<Rightarrow> mmap_obj \<times> (int \<times> int) list list" where
  "run mmap_size area acts = foldl (step mmap_size) (area, []) acts"

definition in_data_area :: "int \<Rightarrow> int \<times> int \<Rightarrow> bool" where
  "in_data_area n p = (8 \<le> fst p \<and> 0 \<le> snd p \<and> fst p + snd p \<le> n)"

definition separate :: "int \<times> int \<Rightarrow> int \<times> int \<Rightarrow> bool" where
  "separate p q = (fst p + snd p \<le> fst q \<or> fst q + snd q \<le> fst p)"

fun pairwise_separate :: "(int \<times> int) list \<Rightarrow> bool" where
  "pairwise_separate [] = True"
| "pairwise_separate (p # ps) = (list_all (separate p) ps \<and> pairwise_separate ps)"

text \<open>
  The shape of the pending ranges between the cursors. A chain from \<open>lo\<close> to \<open>hi\<close>
  is a list of ranges laid one after the other inside \<open>[lo, hi]\<close>. When the end
  cursor is below the start cursor the pending ranges are a chain from \<open>start\<close> to
  the end of the region followed by a chain from 8 to \<open>end\<close>; otherwise they are a
  chain from \<open>start\<close> to \<open>end\<close>.
\<close>

fun chain :: "int \<Rightarrow> int \<Rightarrow> (int \<times> int) list \<Rightarrow> bool" where
  "chain lo hi [] = (lo \<le> hi)"
| "chain lo hi (p # ps) = (lo \<le> fst p \<and> 0 \<le> snd p \<and> chain (fst p + snd p) hi ps)"

definition laid_out :: "int \<Rightarrow> int \<Rightarrow> int \<Rightarrow> (int \<times> int) list \<Rightarrow> bool" where
  "laid_out n start endp ps =
     (if endp < start
      then (\<exists>ps1 ps2. ps = ps1 @ ps2 \<and> chain start n ps1 \<and> chain 8 endp ps2)
      else chain start endp ps)"

definition consistent :: "int \<Rightarrow> mmap_obj \<times> (int \<times> int) list list \<Rightarrow> bool" where
  "consistent n s =
     (case s of
        (area, pending) \<Rightarrow>
          int (length (area_bytes area)) = n \<and> n \<le> 2 ^ 32
          \<and> max 8 (load_data_start area) \<le> n \<and> max 8 (load_data_end area) \<le> n
          \<and> list_all (\<lambda>d. d \<noteq> [] \<and> fst (last d) + snd (last d) < n) pending
          \<and> laid_out n (max 8 (load_data_start area)) (max 8 (load_data_end area))
                (concat pending))"

section \<open>Opening the client's area on the server\<close>

text \<open>
  \<^verbatim>\<open>mmap.mmap(fileno, length)\<close> on a file: a negative length raises
  \<^verbatim>\<open>OverflowError\<close>; length 0 maps the whole file and raises \<^verbatim>\<open>ValueError\<close> for
  an empty one; a length beyond the size of the file raises \<^verbatim>\<open>ValueError\<close>.
\<close>

definition py_mmap :: "byte list \<Rightarrow> int \<Rightarrow> py_error + mmap_obj" where
  "py_mmap content len =
     (if len < 0 then Inl OverflowError
      else if len = 0 then
        (if content = [] then Inl ValueError
         else Inr \<lparr>area_bytes = content, area_pos = 0\<rparr>)
      else if int (length content) < len then Inl ValueError
      else Inr \<lparr>area_bytes = take (nat len) content, area_pos = 0\<rparr>)"

text \<open>
  \<^verbatim>\<open>init_server_mmap(mmap_filename, mmap_size)\<close>. The files that
  \<^verbatim>\<open>open(mmap_filename, "r+b")\<close> can open are a map from their names to their
  contents. A size that differs from the expected one is only logged. Every
  exception of the \<^verbatim>\<open>try\<close> block ends in \<^verbatim>\<open>return None, 0\<close>; on \<^verbatim>\<open>WIN32\<close> the
  block always raises, at \<^verbatim>\<open>f.close()\<close>, since \<open>f\<close> is bound under
  \<^verbatim>\<open>if not WIN32\<close> only.
\<close>

definition init_server_mmap :: "bool \<Rightarrow> (string \<rightharpoonup> byte list) \<Rightarrow> string \<Rightarrow> int
    \<Rightarrow> mmap_obj option \<times> int" where
  "init_server_mmap win32 files mmap_filename mmap_size =
     (if \<not> win32 then
        (case files mmap_filename of
           None \<Rightarrow> (None, 0)
         | Some content \<Rightarrow>
             (let actual_mmap_size = int (length content)
              in case py_mmap content mmap_size of
                   Inl e \<Rightarrow> (None, 0)
                 | Inr mmap_area \<Rightarrow> (Some mmap_area, actual_mmap_size)))
      else (None, 0))"

text \<open>
  The fields of \<^verbatim>\<open>MMAP_Connection\<close>, what the client's capabilities hold under
  the \<open>mmap\<close> keys (\<open>None\<close> for a missing key), and what \<^verbatim>\<open>parse_client_caps\<close>
  asks of the host.
\<close>

record mmap_connection =
  supports_mmap :: bool
  self_mmap_filename :: "string option"
  min_mmap_size :: int
  self_mmap :: "mmap_obj option"
  self_mmap_size :: int
  mmap_client_token :: "int option"
  mmap_client_token_index :: int
  mmap_client_token_bytes :: int
  mmap_client_namespace :: bool

record client_caps =
  caps_namespace :: bool
  caps_file :: "string option"
  caps_size :: "int option"
  caps_token :: "int option"
  caps_token_index :: "int option"
  caps_token_bytes :: "int option"

record host =
  WIN32 :: bool
  isdir :: "string \<Rightarrow> bool"
  path_exists :: "string \<Rightarrow> bool"
  openable :: "string \<rightharpoonup> byte list"
  get_int_uuid :: int
  randint :: "int \<Rightarrow> int \<Rightarrow> int"

definition DEFAULT_TOKEN_BYTES :: int where
  "DEFAULT_TOKEN_BYTES = 128"

text \<open>
  \<^verbatim>\<open>c.intget(key, d)\<close> is the integer under the key, and the default \<open>d\<close> for a
  missing key; a call without a default, as the one for the token, has the
  default 0.
\<close>

definition intget :: "int option \<Rightarrow> int \<Rightarrow> int" where
  "intget v d = (case v of None \<Rightarrow> d | Some n \<Rightarrow> n)"

definition basename :: "string \<Rightarrow> string" where
  "basename p = rev (takeWhile (\<lambda>c. c \<noteq> CHR ''/'') (rev p))"

definition path_join :: "string \<Rightarrow> string \<Rightarrow> string" where
  "path_join a b =
     (if take 1 b = ''/'' then b
      else if a = [] \<or> last a = CHR ''/'' then a @ b
      else a @ ''/'' @ b)"

text \<open>
  The file that \<^verbatim>\<open>parse_client_caps\<close> opens (the \<^verbatim>\<open>if self.mmap_filename\<close>
  statement): the client's file, unless the server has a path of its own, which is
  the file, or the directory that holds a file with the client's base name.
\<close>

definition server_mmap_filename :: "host \<Rightarrow> mmap_connection \<Rightarrow> string \<Rightarrow> string" where
  "server_mmap_filename h self client_file =
     (case self_mmap_filename self of
        None \<Rightarrow> client_file
      | Some server_file \<Rightarrow>
          if server_file = [] then client_file
          else if isdir h server_file
            then path_join server_file (basename client_file)
          else server_file)"

text \<open>
  \<^verbatim>\<open>MMAP_Connection.parse_client_caps(c)\<close>. The result is the exception that
  leaves the method, if any, the connection, and the areas whose \<^verbatim>\<open>close()\<close> was
  called. \<^verbatim>\<open>randint(a, b)\<close> raises \<^verbatim>\<open>ValueError\<close> on an empty range.
\<close>

definition parse_client_caps :: "host \<Rightarrow> mmap_connection \<Rightarrow> client_caps
    \<Rightarrow> py_error option \<times> mmap_connection \<times> mmap_obj list" where
  "parse_client_caps h self c =
     (let self1 = self\<lparr>mmap_client_namespace := caps_namespace c\<rparr>
      in case caps_file c of
           None \<Rightarrow> (None, self1, [])
         | Some client_file \<Rightarrow>
      if client_file = [] then (None, self1, [])
      else
        (let mmap_size = intget (caps_size c) 0;
             mmap_token = intget (caps_token c) 0;
             mmap_filename = server_mmap_filename h self client_file
         in if \<not> supports_mmap self then (None, self1, [])
            else if WIN32 h \<and> take 1 mmap_filename = ''/'' then (None, self1, [])
            else if \<not> path_exists h mmap_filename then (None, self1, [])
            else
              (case init_server_mmap (WIN32 h) (openable h) mmap_filename mmap_size of
                 (area, area_size) \<Rightarrow>
              (let self2 = self1\<lparr>self_mmap := area, self_mmap_size := area_size\<rparr>
               in if \<not> area_size > 0 then (None, self2, [])
                  else
                    (case area of
                       None \<Rightarrow> (Some TypeError, self2, [])
                     | Some m \<Rightarrow>
                    (let index = intget (caps_token_index c) 0;
                         count = intget (caps_token_bytes c) DEFAULT_TOKEN_BYTES
                     in case read_mmap_token m index count of
                          Inl e \<Rightarrow> (Some e, self2, [])
                        | Inr v \<Rightarrow>
                     if v \<noteq> mmap_token then
                       (None, self2\<lparr>self_mmap := None, self_mmap_size := 0\<rparr>, [m])
                     else if area_size < min_mmap_size self then
                       (None, self2\<lparr>self_mmap := None, self_mmap_size := 0\<rparr>, [m])
                     else
                       (let self3 = self2\<lparr>mmap_client_token := Some (get_int_uuid h),
                                          mmap_client_token_bytes := DEFAULT_TOKEN_BYTES\<rparr>
                        in if area_size - DEFAULT_TOKEN_BYTES < 0 then (Some ValueError, self3, [])
                           else
                             (let self4 = self3\<lparr>mmap_client_token_index :=
                                            randint h 0 (area_size - DEFAULT_TOKEN_BYTES)\<rparr>
                              in case write_mmap_token m (get_int_uuid h)
                                        (mmap_client_token_index self4) DEFAULT_TOKEN_BYTES of
                                   (r, m') \<Rightarrow>
                                     ((case r of Inl e \<Rightarrow> Some e | Inr u \<Rightarrow> None),
                                      self4\<lparr>self_mmap := Some m'\<rparr>, [])))))))))"

section \<open>Buffers and cells\<close>

lemma length_write_at:
  "p + length ys \<le> length xs \<Longrightarrow> length (write_at xs p ys) = length xs"
  by (simp add: write_at_def)

lemma read_at_write_at_same:
  "p + length ys \<le> length xs \<Longrightarrow> read_at (write_at xs p ys) p (length ys) = ys"
  by (simp add: write_at_def read_at_def)

lemma read_at_write_at_before:
  "q + n \<le> p \<Longrightarrow> p + length ys \<le> length xs \<Longrightarrow>
   read_at (write_at xs p ys) q n = read_at xs q n"
  by (simp add: write_at_def read_at_def take_drop)

lemma read_at_write_at_after:
  "p + length ys \<le> q \<Longrightarrow> p + length ys \<le> length xs \<Longrightarrow>
   read_at (write_at xs p ys) q n = read_at xs q n"
  by (simp add: write_at_def read_at_def)

lemma length_le_bytes: "length (le_bytes n v) = n"
  by (induction n arbitrary: v) simp_all

lemma le_int_le_bytes: "le_int (le_bytes n v) = v mod 256 ^ n"
proof (induction n arbitrary: v)
  case 0
  show ?case by simp
next
  case (Suc n)
  have "le_int (le_bytes (Suc n) v) = v mod 256 + 256 * ((v div 256) mod 256 ^ n)"
    by (simp add: Suc uint_word_of_int)
  also have "\<dots> = v mod 256 ^ Suc n"
    by (simp add: zmod_zmult2_eq)
  finally show ?case .
qed

section \<open>The token survives the round trip\<close>


lemma write_at_update_Suc:
  "p < length xs \<Longrightarrow> write_at (xs[p := b]) (Suc p) ys = write_at xs p (b # ys)"
  by (simp add: write_at_def take_Suc_conv_app_nth)

lemma le_int_append: "le_int (xs @ ys) = le_int xs + 256 ^ length xs * le_int ys"
  by (induction xs) (simp_all add: algebra_simps)

lemma read_at_Suc:
  "p + n < length xs \<Longrightarrow> read_at xs p (Suc n) = read_at xs p n @ [xs ! (p + n)]"
  by (simp add: read_at_def take_Suc_conv_app_nth)

lemma length_read_at: "p + n \<le> length xs \<Longrightarrow> length (read_at xs p n) = n"
  by (simp add: read_at_def)

lemma write_token_loop_in_range:
  "0 \<le> index \<Longrightarrow> nat index + i + n \<le> length (area_bytes area) \<Longrightarrow>
   write_token_loop area v index i n =
     (Inr (v div 256 ^ n),
      area\<lparr>area_bytes := write_at (area_bytes area) (nat index + i) (le_bytes n v)\<rparr>)"
proof (induction n arbitrary: area v i)
  case 0
  then show ?case by (simp add: write_at_def)
next
  case (Suc n)
  let ?p = "nat index + i"
  let ?area = "ubyte_set area ?p (v mod 256)"
  have cell: "from_buffer area 1 (index + int i) = Inr ?p"
    using Suc.prems by (simp add: from_buffer_def nat_add_distrib)
  have len: "length (area_bytes ?area) = length (area_bytes area)"
    by (simp add: ubyte_set_def)
  have "write_token_loop ?area (drop_bit 8 v) index (Suc i) n =
     (Inr (drop_bit 8 v div 256 ^ n),
      ?area\<lparr>area_bytes := write_at (area_bytes ?area) (nat index + Suc i) (le_bytes n (drop_bit 8 v))\<rparr>)"
    using Suc.prems by (intro Suc.IH) (simp_all add: len)
  moreover have "drop_bit 8 v = v div 256"
    by (simp add: drop_bit_eq_div)
  moreover have "v div 256 div 256 ^ n = v div 256 ^ Suc n"
    by (simp add: zdiv_zmult2_eq)
  moreover have "write_at (area_bytes ?area) (nat index + Suc i) (le_bytes n (v div 256)) =
      write_at (area_bytes area) ?p (le_bytes (Suc n) v)"
    using Suc.prems by (simp add: ubyte_set_def write_at_update_Suc)
  ultimately show ?case
    using cell by (simp add: ubyte_set_def)
qed

lemma read_token_loop_in_range:
  "0 \<le> index \<Longrightarrow> index + count \<le> int (length (area_bytes area)) \<Longrightarrow>
   int i + int n = count \<Longrightarrow>
   read_token_loop area v index count i n =
     Inr (v * 256 ^ n + le_int (read_at (area_bytes area) (nat index) n))"
proof (induction n arbitrary: v i)
  case 0
  then show ?case by (simp add: read_at_def)
next
  case (Suc n)
  let ?p = "nat index + n"
  have pos: "index + count - 1 - int i = index + int n"
    using Suc.prems by simp
  have inside: "?p < length (area_bytes area)"
    using Suc.prems by linarith
  have cell: "from_buffer area 1 (index + int n) = Inr ?p"
    using Suc.prems by (simp add: from_buffer_def nat_add_distrib) 
  have "read_token_loop area (push_bit 8 v + ubyte_value area ?p) index count (Suc i) n =
      Inr ((push_bit 8 v + ubyte_value area ?p) * 256 ^ n
           + le_int (read_at (area_bytes area) (nat index) n))"
    using Suc.prems by (intro Suc.IH) simp_all
  moreover have "le_int (read_at (area_bytes area) (nat index) (Suc n)) =
      le_int (read_at (area_bytes area) (nat index) n) + 256 ^ n * ubyte_value area ?p"
    using inside by (simp add: read_at_Suc le_int_append length_read_at ubyte_value_def)
  ultimately show ?case
    using cell pos by (simp add: push_bit_eq_mult algebra_simps)
qed


text \<open>
  Claim C7. For a width \<open>count > 0\<close>, a token \<open>0 \<le> v < 256 ^ count\<close> and an
  index such that the \<open>count\<close> bytes from \<open>index\<close> lie inside the area,
  \<^verbatim>\<open>write_mmap_token\<close> returns normally, \<^verbatim>\<open>read_mmap_token\<close> on the area it leaves
  returns exactly \<open>v\<close>, and the byte at \<open>index + i\<close> is digit \<open>i\<close> of \<open>v\<close> in base
  256: least significant byte first, whatever the platform.
\<close>

theorem token_round_trip:
  assumes "0 < count" and "0 \<le> index"
    and "index + count \<le> int (length (area_bytes mmap_area))"
    and "0 \<le> v" and "v < 256 ^ nat count"
  shows "\<exists>area'. write_mmap_token mmap_area v index count = (Inr (), area')
           \<and> read_mmap_token area' index count = Inr v
           \<and> map (\<lambda>i. ubyte_value area' (nat index + i)) [0..<nat count]
               = map (\<lambda>i. v div 256 ^ i mod 256) [0..<nat count]
           \<and> length (area_bytes area') = length (area_bytes mmap_area)"
proof -
  let ?n = "nat count"
  let ?bytes = "write_at (area_bytes mmap_area) (nat index) (le_bytes ?n v)"
  let ?area = "mmap_area\<lparr>area_bytes := ?bytes\<rparr>"
  have fits: "nat index + ?n \<le> length (area_bytes mmap_area)"
    using assms by linarith
  have loop: "write_token_loop mmap_area v index 0 ?n = (Inr (v div 256 ^ ?n), ?area)"
    using write_token_loop_in_range [of index 0 ?n mmap_area v] assms fits by simp
  have "v div 256 ^ ?n = 0"
    using assms by (simp add: div_pos_pos_trivial)
  with loop assms have w: "write_mmap_token mmap_area v index count = (Inr (), ?area)"
    by (simp add: write_mmap_token_def)
  have len: "length ?bytes = length (area_bytes mmap_area)"
    using fits by (simp add: length_write_at length_le_bytes)
  have rb: "read_at ?bytes (nat index) ?n = le_bytes ?n v"
    using read_at_write_at_same [of "nat index" "le_bytes ?n v" "area_bytes mmap_area"] fits
    by (simp add: length_le_bytes)
  have "read_token_loop ?area 0 index count 0 ?n
      = Inr (0 * 256 ^ ?n + le_int (read_at (area_bytes ?area) (nat index) ?n))"
    using assms len by (intro read_token_loop_in_range) simp_all
  then have r: "read_mmap_token ?area index count = Inr v"
    using assms by (simp add: read_mmap_token_def rb le_int_le_bytes)
  have "ubyte_value ?area (nat index + i) = v div 256 ^ i mod 256" if "i < ?n" for i
  proof -
    have "?bytes ! (nat index + i) = le_bytes ?n v ! i"
      using that fits by (simp add: write_at_def nth_append length_le_bytes)
    moreover have "uint (le_bytes n v ! i) = v div 256 ^ i mod 256" if "i < n" for n
      using that
    proof (induction n arbitrary: v i)
      case 0
      then show ?case by simp
    next
      case (Suc n)
      then show ?case
        by (cases i) (simp_all add: uint_word_of_int zdiv_zmult2_eq)
    qed
    ultimately show ?thesis
      using that by (simp add: ubyte_value_def)
  qed
  then have lsb: "map (\<lambda>i. ubyte_value ?area (nat index + i)) [0..<?n]
               = map (\<lambda>i. v div 256 ^ i mod 256) [0..<?n]"
    by simp
  show ?thesis
    using w r lsb len by (intro exI [of _ ?area]) simp
qed

theorem token_round_trip_witness:
  "write_mmap_token \<lparr>area_bytes = [7, 7, 7, 7], area_pos = 0\<rparr> 258 1 2
     = (Inr (), \<lparr>area_bytes = [7, 2, 1, 7], area_pos = 0\<rparr>)
   \<and> read_mmap_token \<lparr>area_bytes = [7, 2, 1, 7], area_pos = 0\<rparr> 1 2 = Inr 258"
proof -
  let ?a = "\<lparr>area_bytes = [7, 7, 7, 7 :: byte], area_pos = 0\<rparr>"
  have w: "write_mmap_token ?a 258 1 2 = (Inr (), \<lparr>area_bytes = [7, 2, 1, 7], area_pos = 0\<rparr>)"
    by (simp add: write_mmap_token_def numeral_2_eq_2 from_buffer_def ubyte_set_def drop_bit_eq_div)
  have "(0::int) < 2 \<and> (0::int) \<le> 1 \<and> 1 + 2 \<le> int (length (area_bytes ?a))
       \<and> (0::int) \<le> 258 \<and> (258::int) < 256 ^ nat 2"
    by simp
  with token_round_trip [of 2 1 ?a 258] w show ?thesis
    by auto
qed

section \<open>Cells of the header\<close>

lemma le_int_bounds: "0 \<le> le_int bs \<and> le_int bs < 256 ^ length bs"
proof (induction bs)
  case Nil
  show ?case by simp
next
  case (Cons b bs)
  have "0 \<le> uint b" and "uint b < 256"
    using uint_bounded [of b] by simp_all
  with Cons show ?case by auto
qed

lemma uint32_value_bounds: "0 \<le> uint32_value a p \<and> uint32_value a p < 2 ^ 32"
proof -
  let ?bs = "read_at (area_bytes a) p 4"
  have "length ?bs \<le> 4" by (simp add: read_at_def)
  then have "(256::int) ^ length ?bs \<le> 256 ^ 4"
    by (intro power_increasing) simp_all
  with le_int_bounds [of ?bs] show ?thesis
    by (simp add: uint32_value_def)
qed

lemma area_bytes_uint32_set:
  "area_bytes (uint32_set a p v) = write_at (area_bytes a) p (le_bytes 4 (v mod 2 ^ 32))"
  by (simp add: uint32_set_def)

lemma length_uint32_set:
  "p + 4 \<le> length (area_bytes a) \<Longrightarrow> length (area_bytes (uint32_set a p v)) = length (area_bytes a)"
  by (simp add: uint32_set_def length_write_at length_le_bytes)

lemma uint32_value_set_same:
  assumes "p + 4 \<le> length (area_bytes a)"
  shows "uint32_value (uint32_set a p v) p = v mod 2 ^ 32"
proof -
  have "read_at (write_at (area_bytes a) p (le_bytes 4 (v mod 2 ^ 32))) p 4 = le_bytes 4 (v mod 2 ^ 32)"
    using read_at_write_at_same [of p "le_bytes 4 (v mod 2 ^ 32)" "area_bytes a"] assms
    by (simp add: length_le_bytes)
  then show ?thesis
    by (simp add: uint32_value_def uint32_set_def le_int_le_bytes)
qed

lemma uint32_value_set_other:
  assumes "p + 4 \<le> length (area_bytes a)" and "q + 4 \<le> p \<or> p + 4 \<le> q"
  shows "uint32_value (uint32_set a p v) q = uint32_value a q"
  using assms read_at_write_at_before [of q 4 p "le_bytes 4 (v mod 2 ^ 32)" "area_bytes a"]
    read_at_write_at_after [of p "le_bytes 4 (v mod 2 ^ 32)" q "area_bytes a" 4]
  by (auto simp: uint32_value_def uint32_set_def length_le_bytes)

lemma int_from_buffer_Inr:
  "int_from_buffer a p = Inr c \<longleftrightarrow> 0 \<le> p \<and> p + 4 \<le> int (length (area_bytes a)) \<and> c = nat p"
  by (auto simp: int_from_buffer_def from_buffer_def)

lemma mmap_seek_Inr:
  "mmap_seek a p = Inr a' \<longleftrightarrow> 0 \<le> p \<and> p \<le> int (length (area_bytes a)) \<and> a' = a\<lparr>area_pos := nat p\<rparr>"
  by (auto simp: mmap_seek_def)

lemma mmap_write_bytes_Inr:
  "mmap_write_bytes a bs = Inr a' \<longleftrightarrow>
     area_pos a + length bs \<le> length (area_bytes a)
     \<and> a' = a\<lparr>area_bytes := write_at (area_bytes a) (area_pos a) bs,
               area_pos := area_pos a + length bs\<rparr>"
  by (auto simp: mmap_write_bytes_def)

section \<open>What a write does\<close>

lemma mmap_write_unfold:
  assumes "8 \<le> length (area_bytes a)"
    and "accounting n (load_data_start a) (load_data_end a) = (start, endp, chunk, available)"
  shows "mmap_write a n data =
     (let l = int (length data);
          mmap_free_size = available - l
      in if l > n - 8 then (Inr (TooSmall, mmap_free_size), a)
         else if mmap_free_size \<le> 0 then (Inr (Full, mmap_free_size), a)
         else if l < chunk then
           (case mmap_seek a endp of
              Inl e \<Rightarrow> (Inl e, a)
            | Inr a1 \<Rightarrow>
           (case mmap_write_bytes a1 data of
              Inl e \<Rightarrow> (Inl e, a1)
            | Inr a2 \<Rightarrow>
                (Inr (Chunks [(endp, l)], mmap_free_size),
                 uint32_set a2 4 (endp + l))))
         else if n \<le> 2 * available \<and> available \<ge> l * 3 \<and> l < start - 8 then
           (case mmap_seek a 8 of
              Inl e \<Rightarrow> (Inl e, a)
            | Inr a1 \<Rightarrow>
           (case mmap_write_bytes a1 data of
              Inl e \<Rightarrow> (Inl e, a1)
            | Inr a2 \<Rightarrow>
                (Inr (Chunks [(8, l)], mmap_free_size),
                 uint32_set a2 4 (8 + l))))
         else
           (case mmap_seek a endp of
              Inl e \<Rightarrow> (Inl e, a)
            | Inr a1 \<Rightarrow>
           (case mmap_write_bytes a1 (slice_to data chunk) of
              Inl e \<Rightarrow> (Inl e, a1)
            | Inr a2 \<Rightarrow>
           (case mmap_seek a2 8 of
              Inl e \<Rightarrow> (Inl e, a2)
            | Inr a3 \<Rightarrow>
           (case mmap_write_bytes a3 (slice_from data chunk) of
              Inl e \<Rightarrow> (Inl e, a3)
            | Inr a4 \<Rightarrow>
                (let l2 = l - chunk
                 in (Inr (Chunks [(endp, chunk), (8, l2)], mmap_free_size),
                     uint32_set a4 4 (8 + l2))))))))"
proof -
  have "int_from_buffer a 0 = Inr 0" and "int_from_buffer a 4 = Inr 4"
    using assms(1) by (simp_all add: int_from_buffer_Inr)
  then show ?thesis
    using assms(2) by (simp add: mmap_write_def load_data_start_def load_data_end_def)
qed

lemma mmap_write_short_area:
  assumes "length (area_bytes a) < 8"
  shows "mmap_write a n data = (Inl ValueError, a)"
proof (cases "4 \<le> length (area_bytes a)")
  case True
  then have "int_from_buffer a 0 = Inr 0" and "int_from_buffer a 4 = Inl ValueError"
    using assms by (simp_all add: int_from_buffer_def from_buffer_def)
  then show ?thesis by (simp add: mmap_write_def)
next
  case False
  then have "int_from_buffer a 0 = Inl ValueError"
    by (simp add: int_from_buffer_def from_buffer_def)
  then show ?thesis by (simp add: mmap_write_def)
qed

lemma accounting_cases:
  assumes "accounting n ds de = (start, endp, chunk, available)"
  shows "start = max 8 ds" and "endp = max 8 de"
    and "endp < start \<Longrightarrow> chunk = start - endp \<and> available = start - endp"
    and "\<not> endp < start \<Longrightarrow> chunk = n - endp \<and> available = n - endp + (start - 8)"
  using assms by (auto simp: accounting_def Let_def split: if_splits)

lemma load_data_end_stored:
  assumes "8 \<le> length (area_bytes a)" and "0 \<le> v" and "v < 2 ^ 32"
  shows "load_data_end (uint32_set a 4 v) = v"
  using assms uint32_value_set_same [of 4 a v] by (simp add: load_data_end_def)

lemma load_data_start_kept:
  assumes "8 \<le> length (area_bytes a)"
  shows "load_data_start (uint32_set a 4 v) = load_data_start a"
  using assms uint32_value_set_other [of 4 a 0 v] by (simp add: load_data_start_def)

text \<open>
  Claim C3. Whenever \<^verbatim>\<open>mmap_write\<close> returns chunks for a payload of length \<open>L\<close>
  in a region of size \<open>n \<le> 2^32\<close>, with \<open>(start, end, chunk, available)\<close> the
  accounting of the area: if \<open>L < chunk\<close> the descriptor is \<open>[(end, L)]\<close> and the new
  \<open>data_end\<close> is \<open>end + L\<close>; otherwise, if \<open>available \<ge> n/2\<close> (that is,
  \<open>n \<le> 2 * available\<close>), \<open>available \<ge> 3 * L\<close> and \<open>L < start - 8\<close>, the descriptor
  is \<open>[(8, L)]\<close> and the new \<open>data_end\<close> is \<open>8 + L\<close>; otherwise the descriptor is
  \<open>[(end, chunk), (8, L - chunk)]\<close> and the new \<open>data_end\<close> is \<open>8 + (L - chunk)\<close>.
\<close>

theorem mmap_write_placement:
  assumes n: "n \<le> 2 ^ 32"
    and w: "mmap_write a n data = (Inr (Chunks d, f), a')"
    and acc: "accounting n (load_data_start a) (load_data_end a) = (start, endp, chunk, available)"
  shows "(int (length data) < chunk \<longrightarrow>
            d = [(endp, int (length data))] \<and> load_data_end a' = endp + int (length data))
       \<and> (\<not> int (length data) < chunk
            \<and> n \<le> 2 * available \<and> available \<ge> 3 * int (length data)
            \<and> int (length data) < start - 8 \<longrightarrow>
            d = [(8, int (length data))] \<and> load_data_end a' = 8 + int (length data))
       \<and> (\<not> int (length data) < chunk
            \<and> \<not> (n \<le> 2 * available \<and> available \<ge> 3 * int (length data)
                  \<and> int (length data) < start - 8) \<longrightarrow>
            d = [(endp, chunk), (8, int (length data) - chunk)]
            \<and> load_data_end a' = 8 + (int (length data) - chunk))"
proof -
  let ?l = "int (length data)"
  have long: "8 \<le> length (area_bytes a)"
    using w mmap_write_short_area [of a n data] by (cases "8 \<le> length (area_bytes a)") auto
  note body = mmap_write_unfold [OF long acc, of data]
  have start: "start = max 8 (load_data_start a)" and endp: "endp = max 8 (load_data_end a)"
    using accounting_cases [OF acc] by simp_all
  have "load_data_start a < 2 ^ 32" and "load_data_end a < 2 ^ 32"
    using uint32_value_bounds by (simp_all add: load_data_start_def load_data_end_def)
  then have range: "8 \<le> start" "start < 2 ^ 32" "8 \<le> endp" "endp < 2 ^ 32"
    using start endp by simp_all
  have ok: "?l \<le> n - 8" "0 < available - ?l"
    using w body by (auto simp: Let_def split: if_splits)
  have first: "d = [(endp, ?l)] \<and> load_data_end a' = endp + ?l" if "?l < chunk"
  proof -
    from w body ok that obtain a2 where d: "d = [(endp, ?l)]"
      and a': "a' = uint32_set a2 4 (endp + ?l)"
      and a2: "length (area_bytes a2) = length (area_bytes a)"
      by (auto simp: Let_def mmap_seek_Inr mmap_write_bytes_Inr length_write_at split: sum.splits)
    have "endp + ?l < 2 ^ 32"
      using accounting_cases(3,4) [OF acc] that n range by (cases "endp < start") auto
    then show ?thesis
      using d a' a2 long range by (simp add: load_data_end_stored)
  qed
  have restart: "d = [(8, ?l)] \<and> load_data_end a' = 8 + ?l"
    if "\<not> ?l < chunk" and "n \<le> 2 * available \<and> available \<ge> 3 * ?l \<and> ?l < start - 8"
  proof -
    from w body ok that obtain a2 where d: "d = [(8, ?l)]"
      and a': "a' = uint32_set a2 4 (8 + ?l)"
      and a2: "length (area_bytes a2) = length (area_bytes a)"
      by (auto simp: Let_def mmap_seek_Inr mmap_write_bytes_Inr length_write_at mult.commute split: sum.splits)
    have "8 + ?l < 2 ^ 32"
      using that range by simp
    then show ?thesis
      using d a' a2 long by (simp add: load_data_end_stored)
  qed
  have split: "d = [(endp, chunk), (8, ?l - chunk)] \<and> load_data_end a' = 8 + (?l - chunk)"
    if "\<not> ?l < chunk" and "\<not> (n \<le> 2 * available \<and> available \<ge> 3 * ?l \<and> ?l < start - 8)"
  proof -
    from w body ok that obtain a4 where d: "d = [(endp, chunk), (8, ?l - chunk)]"
      and a': "a' = uint32_set a4 4 (8 + (?l - chunk))"
      and a4: "length (area_bytes a4) = length (area_bytes a)"
      by (auto simp: Let_def mmap_seek_Inr mmap_write_bytes_Inr length_write_at mult.commute split: sum.splits)
    have "\<not> endp < start"
      using accounting_cases(3) [OF acc] that(1) ok by auto
    then have "available = chunk + (start - 8)"
      using accounting_cases(4) [OF acc] by simp
    then have "8 + (?l - chunk) < 2 ^ 32" and "0 \<le> 8 + (?l - chunk)"
      using that ok range by simp_all
    then show ?thesis
      using d a' a4 long by (simp add: load_data_end_stored)
  qed
  from first restart split show ?thesis by blast
qed

theorem mmap_write_placement_witness:
  "fst (mmap_write \<lparr>area_bytes = [40,0,0,0, 12,0,0,0] @ replicate 56 0, area_pos = 0\<rparr> 64 [1,2,3])
     = Inr (Chunks [(12, 3)], 25)
   \<and> load_data_end
        (snd (mmap_write \<lparr>area_bytes = [40,0,0,0, 12,0,0,0] @ replicate 56 0, area_pos = 0\<rparr> 64 [1,2,3]))
       = 15"
proof -
  let ?a = "\<lparr>area_bytes = [40,0,0,0, 12,0,0,0] @ replicate 56 (0 :: byte), area_pos = 0\<rparr>"
  have f: "fst (mmap_write ?a 64 [1,2,3]) = Inr (Chunks [(12, 3)], 25)"
    by code_simp
  then have w: "mmap_write ?a 64 [1,2,3]
      = (Inr (Chunks [(12, 3)], 25), snd (mmap_write ?a 64 [1,2,3]))"
    by (simp add: prod_eq_iff)
  have acc: "accounting 64 (load_data_start ?a) (load_data_end ?a) = (40, 12, 28, 28)"
    by code_simp
  have n: "(64 :: int) \<le> 2 ^ 32"
    by simp
  from mmap_write_placement [OF n w acc] f show ?thesis
    by simp
qed

lemma mmap_write_refused:
  assumes "8 \<le> length (area_bytes a)"
    and "accounting n (load_data_start a) (load_data_end a) = (start, endp, chunk, available)"
  shows "int (length data) > n - 8 \<Longrightarrow>
           mmap_write a n data = (Inr (TooSmall, available - int (length data)), a)"
    and "int (length data) \<le> n - 8 \<Longrightarrow> available \<le> int (length data) \<Longrightarrow>
           mmap_write a n data = (Inr (Full, available - int (length data)), a)"
  using mmap_write_unfold [OF assms, of data] by (simp_all add: Let_def)

lemma mmap_write_ChunksE:
  assumes w: "mmap_write a n data = (Inr (Chunks d, f), a')"
    and acc: "accounting n (load_data_start a) (load_data_end a) = (start, endp, chunk, available)"
  obtains
    (contiguous) "int (length data) < chunk"
      "d = [(endp, int (length data))]"
      "endp + int (length data) \<le> int (length (area_bytes a))"
      "a' = uint32_set (a\<lparr>area_bytes := write_at (area_bytes a) (nat endp) data,
                           area_pos := nat endp + length data\<rparr>) 4 (endp + int (length data))"
  | (restart) "\<not> int (length data) < chunk" "int (length data) < start - 8"
      "d = [(8, int (length data))]"
      "8 + int (length data) \<le> int (length (area_bytes a))"
      "a' = uint32_set (a\<lparr>area_bytes := write_at (area_bytes a) 8 data,
                           area_pos := 8 + length data\<rparr>) 4 (8 + int (length data))"
  | (split) "\<not> int (length data) < chunk" "\<not> endp < start"
      "d = [(endp, chunk), (8, int (length data) - chunk)]"
      "endp \<le> int (length (area_bytes a))"
      "nat endp + length (slice_to data chunk) \<le> length (area_bytes a)"
      "8 + length (slice_from data chunk) \<le> length (area_bytes a)"
      "a' = uint32_set
              (a\<lparr>area_bytes := write_at (write_at (area_bytes a) (nat endp) (slice_to data chunk))
                                  8 (slice_from data chunk),
                  area_pos := 8 + length (slice_from data chunk)\<rparr>)
              4 (8 + (int (length data) - chunk))"
proof -
  let ?l = "int (length data)"
  have long: "8 \<le> length (area_bytes a)"
    using w mmap_write_short_area [of a n data] by (cases "8 \<le> length (area_bytes a)") auto
  note body = mmap_write_unfold [OF long acc, of data]
  have endp: "8 \<le> endp"
    using accounting_cases(2) [OF acc] by simp
  have ok: "?l \<le> n - 8" "0 < available - ?l"
    using w body by (auto simp: Let_def split: if_splits)
  consider (a) "?l < chunk"
    | (b) "\<not> ?l < chunk" "n \<le> 2 * available \<and> available \<ge> ?l * 3 \<and> ?l < start - 8"
    | (c) "\<not> ?l < chunk" "\<not> (n \<le> 2 * available \<and> available \<ge> ?l * 3 \<and> ?l < start - 8)"
    by blast
  then show thesis
  proof cases
    case a
    with w body ok endp show thesis
      by (intro contiguous)
        (auto simp: Let_def mmap_seek_Inr mmap_write_bytes_Inr split: sum.splits)
  next
    case b
    with w body ok show thesis
      by (intro restart)
        (auto simp: Let_def mmap_seek_Inr mmap_write_bytes_Inr split: sum.splits)
  next
    case c
    have "\<not> endp < start"
      using accounting_cases(3) [OF acc] c(1) ok by auto
    with c w body ok endp show thesis
      by (intro split)
        (auto simp: Let_def mmap_seek_Inr mmap_write_bytes_Inr length_write_at split: sum.splits)
  qed
qed

lemma mmap_write_facts:
  assumes w: "mmap_write a n data = (Inr (Chunks d, f), a')"
    and acc: "accounting n (load_data_start a) (load_data_end a) = (start, endp, chunk, available)"
  shows "8 \<le> length (area_bytes a)" and "int (length data) \<le> n - 8"
    and "int (length data) < available" and "f = available - int (length data)"
proof -
  show long: "8 \<le> length (area_bytes a)"
    using w mmap_write_short_area [of a n data] by (cases "8 \<le> length (area_bytes a)") auto
  note body = mmap_write_unfold [OF long acc, of data]
  show "int (length data) \<le> n - 8" and "int (length data) < available"
    using w body by (auto simp: Let_def split: if_splits)
  show "f = available - int (length data)"
    using w body by (auto simp: Let_def split: if_splits sum.splits)
qed

lemma mmap_put:
  assumes "0 \<le> p" and "nat p + length bs \<le> length (area_bytes a)"
  shows "mmap_seek a p = Inr (a\<lparr>area_pos := nat p\<rparr>)"
    and "mmap_write_bytes (a\<lparr>area_pos := nat p\<rparr>) bs
          = Inr (a\<lparr>area_bytes := write_at (area_bytes a) (nat p) bs,
                    area_pos := nat p + length bs\<rparr>)"
  using assms by (auto simp: mmap_seek_def mmap_write_bytes_def)

lemma mmap_write_succeeds:
  assumes len: "int (length (area_bytes a)) = n"
    and ds: "max 8 (load_data_start a) \<le> n" and de: "max 8 (load_data_end a) \<le> n"
    and acc: "accounting n (load_data_start a) (load_data_end a) = (start, endp, chunk, available)"
    and fits: "int (length data) \<le> n - 8" "int (length data) < available"
  shows "\<exists>d a'. mmap_write a n data = (Inr (Chunks d, available - int (length data)), a')"
proof -
  let ?l = "int (length data)"
  have long: "8 \<le> length (area_bytes a)"
    using len ds by linarith
  note body = mmap_write_unfold [OF long acc, of data]
  have se: "8 \<le> start" "start \<le> n" "8 \<le> endp" "endp \<le> n"
    using accounting_cases(1,2) [OF acc] ds de by simp_all
  consider (a) "?l < chunk"
    | (b) "\<not> ?l < chunk" "n \<le> 2 * available \<and> available \<ge> ?l * 3 \<and> ?l < start - 8"
    | (c) "\<not> ?l < chunk" "\<not> (n \<le> 2 * available \<and> available \<ge> ?l * 3 \<and> ?l < start - 8)"
    by blast
  then show ?thesis
  proof cases
    case a
    have "endp + ?l \<le> n"
      using accounting_cases(3,4) [OF acc] a se by (cases "endp < start") auto
    then have "nat endp + length data \<le> length (area_bytes a)"
      using len se by linarith
    from mmap_put [OF _ this] a fits se show ?thesis
      by (simp add: body Let_def)
  next
    case b
    then have "nat 8 + length data \<le> length (area_bytes a)"
      using len se by linarith
    from mmap_put [OF _ this] b fits show ?thesis
      by (simp add: body Let_def)
  next
    case c
    have nw: "\<not> endp < start"
      using accounting_cases(3) [OF acc] c(1) fits by auto
    then have ch: "chunk = n - endp" "available = chunk + (start - 8)"
      using accounting_cases(4) [OF acc] by simp_all
    have "0 \<le> chunk"
      using ch se by simp
    then have s1: "length (slice_to data chunk) = nat chunk"
      and s2: "length (slice_from data chunk) = length data - nat chunk"
      using c(1) by (simp_all add: slice_to_def slice_from_def)
    let ?a2 = "a\<lparr>area_bytes := write_at (area_bytes a) (nat endp) (slice_to data chunk),
                  area_pos := nat endp + length (slice_to data chunk)\<rparr>"
    have one: "nat endp + length (slice_to data chunk) \<le> length (area_bytes a)"
      using ch se len s1 by linarith
    then have "length (area_bytes ?a2) = length (area_bytes a)"
      by (simp add: length_write_at)
    then have two: "nat 8 + length (slice_from data chunk) \<le> length (area_bytes ?a2)"
      using ch fits se len s2 \<open>0 \<le> chunk\<close> by linarith
    from mmap_put [OF _ one] mmap_put [OF _ two] c fits se show ?thesis
      by (auto simp: body Let_def)
  qed
qed

section \<open>Capacity and accounting\<close>

lemma returns_chunks_iff:
  "returns_chunks r \<longleftrightarrow> (\<exists>d f a'. r = (Inr (Chunks d, f), a'))"
  by (cases r) (auto simp: returns_chunks_def split: sum.splits write_outcome.splits)

text \<open>
  Claim C1, as the code has it. In a region of size \<open>n\<close> whose clamped cursors lie
  within the region, \<^verbatim>\<open>mmap_write\<close> returns chunks if and only if \<open>L \<le> n - 8\<close> and
  the available space is strictly greater than \<open>L\<close>. When \<open>L > n - 8\<close> it returns
  no chunks after the warning that the area is too small; when \<open>L \<le> n - 8\<close> and
  \<open>available - L \<le> 0\<close> it returns no chunks after the warning that the area is full.
  In both cases the area it leaves is the area it was given: no byte of the payload
  is written and \<open>data_end\<close> is unchanged.
\<close>

theorem mmap_write_capacity:
  assumes len: "int (length (area_bytes a)) = n"
    and ds: "max 8 (load_data_start a) \<le> n" and de: "max 8 (load_data_end a) \<le> n"
  shows "(returns_chunks (mmap_write a n data)
            \<longleftrightarrow> int (length data) \<le> n - 8 \<and> int (length data) < available_space n a)
       \<and> (int (length data) > n - 8 \<longrightarrow>
            mmap_write a n data = (Inr (TooSmall, available_space n a - int (length data)), a))
       \<and> (int (length data) \<le> n - 8 \<and> available_space n a - int (length data) \<le> 0 \<longrightarrow>
            mmap_write a n data = (Inr (Full, available_space n a - int (length data)), a))"
proof -
  obtain start endp chunk available
    where acc: "accounting n (load_data_start a) (load_data_end a) = (start, endp, chunk, available)"
    by (cases "accounting n (load_data_start a) (load_data_end a)") auto
  then have av: "available_space n a = available"
    by (simp add: available_space_def)
  have long: "8 \<le> length (area_bytes a)"
    using len ds by linarith
  have "returns_chunks (mmap_write a n data)"
    if "int (length data) \<le> n - 8" and "int (length data) < available"
    using mmap_write_succeeds [OF len ds de acc that] by (auto simp: returns_chunks_iff)
  moreover have "int (length data) \<le> n - 8 \<and> int (length data) < available"
    if "returns_chunks (mmap_write a n data)"
    using that mmap_write_facts(2,3) [OF _ acc] by (auto simp: returns_chunks_iff)
  ultimately have success: "returns_chunks (mmap_write a n data)
      \<longleftrightarrow> int (length data) \<le> n - 8 \<and> int (length data) < available"
    by blast
  have small: "mmap_write a n data = (Inr (TooSmall, available - int (length data)), a)"
    if "int (length data) > n - 8"
    using that by (rule mmap_write_refused(1) [OF long acc])
  have full: "mmap_write a n data = (Inr (Full, available - int (length data)), a)"
    if "int (length data) \<le> n - 8 \<and> available - int (length data) \<le> 0"
    using that mmap_write_refused(2) [OF long acc, of data] by simp
  from success small full show ?thesis
    unfolding av by blast
qed

lemma mmap_write_free_size:
  assumes w: "mmap_write a n data = (Inr (r, f), a')"
    and acc: "accounting n (load_data_start a) (load_data_end a) = (start, endp, chunk, available)"
  shows "f = available - int (length data)"
proof -
  have long: "8 \<le> length (area_bytes a)"
    using w mmap_write_short_area [of a n data] by (cases "8 \<le> length (area_bytes a)") auto
  from w mmap_write_unfold [OF long acc, of data] show ?thesis
    by (auto simp: Let_def split: if_splits sum.splits)
qed

text \<open>
  Claim C4. For every region size and every pair of stored cursors the accounting
  of \<^verbatim>\<open>mmap_write\<close> is the one specified: \<open>start = max 8 data_start\<close>,
  \<open>end = max 8 data_end\<close>; if \<open>end < start\<close> the first chunk capacity and the
  available space are both \<open>start - end\<close>, otherwise the capacity is \<open>n - end\<close> and
  the available space is the capacity plus \<open>start - 8\<close>. The free size that
  \<^verbatim>\<open>mmap_write\<close> returns is that available space minus the length of the payload.
\<close>

theorem accounting_as_specified:
  "accounting n (load_data_start a) (load_data_end a)
     = (max 8 (load_data_start a), max 8 (load_data_end a),
        spec_first_chunk_capacity n (load_data_start a) (load_data_end a),
        spec_available n (load_data_start a) (load_data_end a))
   \<and> (\<forall>r f a'. mmap_write a n data = (Inr (r, f), a') \<longrightarrow>
         f = spec_available n (load_data_start a) (load_data_end a) - int (length data))"
proof -
  let ?ds = "load_data_start a" and ?de = "load_data_end a"
  have acc: "accounting n ?ds ?de
     = (max 8 ?ds, max 8 ?de, spec_first_chunk_capacity n ?ds ?de, spec_available n ?ds ?de)"
    unfolding accounting_def spec_first_chunk_capacity_def spec_available_def Let_def
    by (cases "max 8 ?de < max 8 ?ds") (simp_all only: if_True if_False)
  have "f = spec_available n ?ds ?de - int (length data)"
    if "mmap_write a n data = (Inr (r, f), a')" for r f a'
    using that acc by (rule mmap_write_free_size)
  with acc show ?thesis by blast
qed

theorem mmap_write_capacity_witness:
  "returns_chunks (mmap_write \<lparr>area_bytes = replicate 16 0, area_pos = 0\<rparr> 16 [1, 2, 3])
   \<and> mmap_write \<lparr>area_bytes = replicate 16 0, area_pos = 0\<rparr> 16 [1, 2, 3, 4, 5, 6, 7, 8, 9]
       = (Inr (TooSmall, - 1), \<lparr>area_bytes = replicate 16 0, area_pos = 0\<rparr>)"
proof -
  let ?z = "\<lparr>area_bytes = replicate 16 (0::byte), area_pos = 0\<rparr>"
  have len: "int (length (area_bytes ?z)) = 16"
    by simp
  have ds: "max 8 (load_data_start ?z) \<le> 16" and de: "max 8 (load_data_end ?z) \<le> 16"
    by code_simp+
  have av: "available_space 16 ?z = 8"
    by code_simp
  have "returns_chunks (mmap_write ?z 16 [1, 2, 3])"
    using mmap_write_capacity [OF len ds de, of "[1, 2, 3]"] av by simp
  moreover have "mmap_write ?z 16 [1, 2, 3, 4, 5, 6, 7, 8, 9] = (Inr (TooSmall, - 1), ?z)"
    using mmap_write_capacity [OF len ds de, of "[1, 2, 3, 4, 5, 6, 7, 8, 9]"] av by simp
  ultimately show ?thesis by blast
qed

text \<open>
  The claim as stated lets a payload through when the available space equals its
  length. In an empty region of 16 bytes, 8 bytes are available and a payload of
  8 bytes satisfies \<open>L \<le> n - 8\<close> and \<open>available \<ge> L\<close>, yet no chunks are returned.
\<close>

theorem mmap_write_exact_fit_counterexample:
  "\<not> (returns_chunks (mmap_write \<lparr>area_bytes = replicate 16 0, area_pos = 0\<rparr> 16
                        [1, 2, 3, 4, 5, 6, 7, 8])
        \<longleftrightarrow> int (length [1, 2, 3, 4, 5, 6, 7, 8 :: byte]) \<le> 16 - 8
          \<and> available_space 16 \<lparr>area_bytes = replicate 16 0, area_pos = 0\<rparr>
              \<ge> int (length [1, 2, 3, 4, 5, 6, 7, 8 :: byte]))"
proof -
  let ?z = "\<lparr>area_bytes = replicate 16 (0::byte), area_pos = 0\<rparr>"
  have "mmap_write ?z 16 [1, 2, 3, 4, 5, 6, 7, 8] = (Inr (Full, 0), ?z)"
    by code_simp
  moreover have "available_space 16 ?z = 8"
    by code_simp
  ultimately show ?thesis
    by (simp add: returns_chunks_def)
qed

theorem accounting_as_specified_witness:
  "accounting 16 (load_data_start \<lparr>area_bytes = [12,0,0,0, 9,0,0,0, 0,0,0,0, 0,0,0,0], area_pos = 0\<rparr>)
      (load_data_end \<lparr>area_bytes = [12,0,0,0, 9,0,0,0, 0,0,0,0, 0,0,0,0], area_pos = 0\<rparr>)
     = (12, 9, 3, 3)
   \<and> spec_available 16 12 9 - int (length [5, 6 :: byte]) = 1
   \<and> fst (mmap_write \<lparr>area_bytes = [12,0,0,0, 9,0,0,0, 0,0,0,0, 0,0,0,0], area_pos = 0\<rparr> 16 [5, 6])
       = Inr (Chunks [(9, 2)], 1)"
proof -
  let ?a = "\<lparr>area_bytes = [12,0,0,0, 9,0,0,0, 0,0,0,0, 0,0,0,0 :: byte], area_pos = 0\<rparr>"
  have c: "load_data_start ?a = 12" "load_data_end ?a = 9"
    by code_simp+
  have s: "spec_first_chunk_capacity 16 12 9 = 3" "spec_available 16 12 9 = 3"
    by code_simp+
  have w: "mmap_write ?a 16 [5, 6]
      = (Inr (Chunks [(9, 2)], 1),
         \<lparr>area_bytes = [12,0,0,0, 11,0,0,0, 0,5,6,0, 0,0,0,0], area_pos = 11\<rparr>)"
    by code_simp
  from accounting_as_specified [of 16 ?a "[5, 6]"] c s w show ?thesis
    by simp
qed

section \<open>Reading back what was written\<close>

lemma int_from_buffer_0: "4 \<le> length (area_bytes a) \<Longrightarrow> int_from_buffer a 0 = Inr 0"
  by (simp add: int_from_buffer_Inr)

lemma mmap_read_single:
  assumes "4 \<le> length (area_bytes a)" and "0 \<le> len" and "0 \<le> offset"
    and "offset + len \<le> int (length (area_bytes a))" and "len < 2 ^ 63"
  shows "mmap_read a [(offset, len)]
     = (Inr (read_at (area_bytes (uint32_set a 0 (offset + len))) (nat offset) (nat len)),
        uint32_set a 0 (offset + len))"
proof -
  have "length (area_bytes (uint32_set a 0 (offset + len))) = length (area_bytes a)"
    using assms(1) by (simp add: length_uint32_set)
  then have "from_buffer (uint32_set a 0 (offset + len)) (nat len) offset = Inr (nat offset)"
    using assms by (simp add: from_buffer_def)
  then show ?thesis
    using assms by (simp add: mmap_read_def int_from_buffer_0 fits_ssize_t_def Let_def)
qed

lemma read_chunks_step:
  assumes "0 \<le> offset" and "0 \<le> len" and "offset + len \<le> int (length (area_bytes a))"
    and "len < 2 ^ 63"
  shows "read_chunks a c ((offset, len) # rest) acc
     = read_chunks (uint32_set (a\<lparr>area_pos := nat offset + nat len\<rparr>) c (offset + len)) c rest
         (acc @ [read_at (area_bytes a) (nat offset) (nat len)])"
proof -
  have "mmap_seek a offset = Inr (a\<lparr>area_pos := nat offset\<rparr>)"
    using assms by (simp add: mmap_seek_def)
  moreover have "mmap_read_bytes (a\<lparr>area_pos := nat offset\<rparr>) len
      = Inr (read_at (area_bytes a) (nat offset) (nat len),
             a\<lparr>area_pos := nat offset + nat len\<rparr>)"
  proof -
    have "min (nat len) (length (area_bytes a) - nat offset) = nat len"
      using assms by linarith
    then show ?thesis
      using assms by (simp add: mmap_read_bytes_def fits_ssize_t_def Let_def)
  qed
  ultimately show ?thesis by simp
qed

lemma read_at_past_header:
  assumes "8 \<le> p" and "8 \<le> length bs" and "c = 0 \<or> c = 4"
  shows "read_at (write_at bs c (le_bytes 4 w)) p k = read_at bs p k"
  using assms by (intro read_at_write_at_after) (auto simp: length_le_bytes)

lemma length_header_store:
  assumes "8 \<le> length bs" and "c = 0 \<or> c = 4"
  shows "length (write_at bs c (le_bytes 4 w)) = length bs"
  using assms by (intro length_write_at) (auto simp: length_le_bytes)

text \<open>
  Claim C2. In a region of size \<open>n\<close>, when \<^verbatim>\<open>mmap_write\<close> returns chunks for a
  payload, \<^verbatim>\<open>mmap_read\<close> of those chunks on the area it leaves returns the payload,
  byte for byte: through the array over one pair, and through the concatenation
  of the two ranges, in the order of the descriptor, when the payload was split.
  The length of the payload fits the signed size type, as the length of every
  Python bytes object does.
\<close>

theorem mmap_round_trip:
  assumes len: "int (length (area_bytes a)) = n"
    and w: "mmap_write a n data = (Inr (Chunks d, f), a')"
    and small: "int (length data) < 2 ^ 63"
  shows "fst (mmap_read a' d) = Inr data"
proof -
  let ?l = "int (length data)" and ?B = "area_bytes a"
  obtain start endp chunk available
    where acc: "accounting n (load_data_start a) (load_data_end a) = (start, endp, chunk, available)"
    by (cases "accounting n (load_data_start a) (load_data_end a)") auto
  have long: "8 \<le> length ?B" and avail: "?l < available"
    using mmap_write_facts [OF w acc] by simp_all
  have se: "8 \<le> start" "8 \<le> endp"
    using accounting_cases(1,2) [OF acc] by simp_all
  have single: "fst (mmap_read a' [(p, ?l)]) = Inr data"
    if p: "8 \<le> p" "p + ?l \<le> int (length ?B)"
      and a': "a' = uint32_set (a\<lparr>area_bytes := write_at ?B (nat p) data,
                                   area_pos := nat p + length data\<rparr>) 4 v"
    for p v
  proof -
    let ?W = "write_at ?B (nat p) data"
    have fit: "nat p + length data \<le> length ?B"
      using p by linarith
    then have lenW: "length ?W = length ?B"
      by (rule length_write_at)
    have bytes: "area_bytes a' = write_at ?W 4 (le_bytes 4 (v mod 2 ^ 32))"
      by (simp add: a' area_bytes_uint32_set)
    then have len': "length (area_bytes a') = length ?B"
      using long lenW by (simp add: length_header_store)
    have "read_at (area_bytes (uint32_set a' 0 (p + ?l))) (nat p) (nat ?l)
        = read_at ?W (nat p) (length data)"
      using p long lenW len'
      by (simp add: area_bytes_uint32_set bytes read_at_past_header length_header_store)
    also have "\<dots> = data"
      using fit by (rule read_at_write_at_same)
    finally show ?thesis
      using mmap_read_single [of a' ?l p] p long len' small by simp
  qed
  from w acc show ?thesis
  proof (cases rule: mmap_write_ChunksE)
    case contiguous
    with se single [of endp "endp + ?l"] show ?thesis by simp
  next
    case restart
    with single [of 8 "8 + ?l"] show ?thesis by simp
  next
    case split
    let ?s1 = "slice_to data chunk" and ?s2 = "slice_from data chunk"
    let ?X = "write_at ?B (nat endp) ?s1"
    let ?Y = "write_at ?X 8 ?s2"
    have ch: "chunk = n - endp" "available = chunk + (start - 8)"
      using accounting_cases(4) [OF acc] split(2) by simp_all
    have chunk0: "0 \<le> chunk"
      using ch split(4) len by simp
    then have s1: "?s1 = take (nat chunk) data" and s2: "?s2 = drop (nat chunk) data"
      by (simp_all add: slice_to_def slice_from_def)
    have l1: "length ?s1 = nat chunk" and l2: "length ?s2 = nat (?l - chunk)"
      using split(1) chunk0 by (auto simp: s1 s2)
    have apart: "8 + length ?s2 \<le> nat endp"
      using l2 ch avail split(1,2) se by linarith
    have lenX: "length ?X = length ?B"
      using split(5) by (rule length_write_at)
    then have lenY: "length ?Y = length ?B"
      using split(6) by (simp add: length_write_at)
    have bytes: "area_bytes a' = write_at ?Y 4 (le_bytes 4 ((8 + (?l - chunk)) mod 2 ^ 32))"
      by (simp add: split(7) area_bytes_uint32_set)
    then have len': "length (area_bytes a') = length ?B"
      using long lenY by (simp add: length_header_store)
    have first: "read_at (area_bytes a') (nat endp) (nat chunk) = ?s1"
    proof -
      have "read_at (area_bytes a') (nat endp) (nat chunk) = read_at ?Y (nat endp) (nat chunk)"
        using se long lenY by (simp add: bytes read_at_past_header)
      also have "\<dots> = read_at ?X (nat endp) (nat chunk)"
        using apart split(6) lenX by (intro read_at_write_at_after) simp_all
      also have "\<dots> = ?s1"
        using read_at_write_at_same [of "nat endp" ?s1 ?B] split(5) l1 by simp
      finally show ?thesis .
    qed
    let ?a1 = "uint32_set (a'\<lparr>area_pos := nat endp + nat chunk\<rparr>) 0 (endp + chunk)"
    have bytes1: "area_bytes ?a1 = write_at (area_bytes a') 0 (le_bytes 4 ((endp + chunk) mod 2 ^ 32))"
      by (simp add: area_bytes_uint32_set)
    then have len1: "length (area_bytes ?a1) = length ?B"
      using long len' by (simp add: length_header_store)
    have second: "read_at (area_bytes ?a1) (nat 8) (nat (?l - chunk)) = ?s2"
    proof -
      have "read_at (area_bytes ?a1) (nat 8) (nat (?l - chunk)) = read_at (area_bytes a') 8 (length ?s2)"
        using long len' l2 by (simp only: bytes1) (simp add: read_at_past_header)
      also have "\<dots> = read_at ?Y 8 (length ?s2)"
        using long lenY by (simp add: bytes read_at_past_header)
      also have "\<dots> = ?s2"
        using split(6) lenX by (intro read_at_write_at_same) simp
      finally show ?thesis .
    qed
    have "read_chunks a' 0 [(endp, chunk), (8, ?l - chunk)] []
        = read_chunks ?a1 0 [(8, ?l - chunk)]
            ([] @ [read_at (area_bytes a') (nat endp) (nat chunk)])"
      using se chunk0 ch len len' split(1) small by (intro read_chunks_step) linarith+
    also have "\<dots> = read_chunks
          (uint32_set (?a1\<lparr>area_pos := nat 8 + nat (?l - chunk)\<rparr>) 0 (8 + (?l - chunk))) 0 []
          (([] @ [read_at (area_bytes a') (nat endp) (nat chunk)])
            @ [read_at (area_bytes ?a1) (nat 8) (nat (?l - chunk))])"
      using split(1,6) l2 len1 chunk0 small by (intro read_chunks_step) linarith+
    also have "\<dots> = (Inr [?s1, ?s2],
           uint32_set (?a1\<lparr>area_pos := nat 8 + nat (?l - chunk)\<rparr>) 0 (8 + (?l - chunk)))"
      by (simp only: first second read_chunks.simps append_Nil append_Cons)
    finally have "read_chunks a' 0 [(endp, chunk), (8, ?l - chunk)] []
        = (Inr [?s1, ?s2],
           uint32_set (?a1\<lparr>area_pos := nat 8 + nat (?l - chunk)\<rparr>) 0 (8 + (?l - chunk)))" .
    moreover have "int_from_buffer a' 0 = Inr 0"
      using long len' by (simp add: int_from_buffer_0)
    ultimately have "fst (mmap_read a' [(endp, chunk), (8, ?l - chunk)]) = Inr (?s1 @ ?s2)"
      by (simp add: mmap_read_def)
    then show ?thesis
      by (simp add: split(3) s1 s2)
  qed
qed

theorem mmap_round_trip_witness:
  "mmap_write \<lparr>area_bytes = [12,0,0,0, 12,0,0,0, 0,0,0,0, 0,0,0,0], area_pos = 0\<rparr> 16 [1,2,3,4,5,6]
     = (Inr (Chunks [(12, 4), (8, 2)], 2),
        \<lparr>area_bytes = [12,0,0,0, 10,0,0,0, 5,6,0,0, 1,2,3,4], area_pos = 10\<rparr>)
   \<and> fst (mmap_read \<lparr>area_bytes = [12,0,0,0, 10,0,0,0, 5,6,0,0, 1,2,3,4], area_pos = 10\<rparr>
            [(12, 4), (8, 2)]) = Inr [1,2,3,4,5,6]"
proof -
  let ?a = "\<lparr>area_bytes = [12,0,0,0, 12,0,0,0, 0,0,0,0, 0,0,0,0 :: byte], area_pos = 0\<rparr>"
  have len: "int (length (area_bytes ?a)) = 16"
    by simp
  have w: "mmap_write ?a 16 [1,2,3,4,5,6]
     = (Inr (Chunks [(12, 4), (8, 2)], 2),
        \<lparr>area_bytes = [12,0,0,0, 10,0,0,0, 5,6,0,0, 1,2,3,4], area_pos = 10\<rparr>)"
    by code_simp
  have small: "int (length [1,2,3,4,5,6 :: byte]) < 2 ^ 63"
    by simp
  from mmap_round_trip [OF len w small] w show ?thesis
    by simp
qed

section \<open>What a read does to the cursors\<close>

lemma load_data_start_stored:
  assumes "4 \<le> length (area_bytes a)" and "0 \<le> v" and "v < 2 ^ 32"
  shows "load_data_start (uint32_set a 0 v) = v"
  using assms uint32_value_set_same [of 0 a v] by (simp add: load_data_start_def)

lemma load_data_end_kept:
  assumes "8 \<le> length (area_bytes a)"
  shows "load_data_end (uint32_set a 0 v) = load_data_end a"
  using assms uint32_value_set_other [of 0 a 4 v] by (simp add: load_data_end_def)

lemma cursors_area_pos [simp]:
  "load_data_start (a\<lparr>area_pos := k\<rparr>) = load_data_start a"
  "load_data_end (a\<lparr>area_pos := k\<rparr>) = load_data_end a"
  by (simp_all add: load_data_start_def load_data_end_def uint32_value_def)

lemma mmap_read_one:
  assumes "4 \<le> length (area_bytes a)" and "0 \<le> len" and "len < 2 ^ 63"
  shows "snd (mmap_read a [(offset, len)]) = uint32_set a 0 (offset + len)"
  using assms
  by (simp add: mmap_read_def int_from_buffer_0 fits_ssize_t_def Let_def split: sum.splits)

lemma mmap_read_overflow:
  assumes "4 \<le> length (area_bytes a)" and "\<not> fits_ssize_t len"
  shows "mmap_read a [(offset, len)] = (Inl OverflowError, a)"
  using assms by (simp add: mmap_read_def int_from_buffer_0)

lemma read_chunks_overflow:
  assumes "0 \<le> offset" and "offset \<le> int (length (area_bytes a))" and "\<not> fits_ssize_t len"
  shows "read_chunks a c ((offset, len) # rest) data
           = (Inl OverflowError, a\<lparr>area_pos := nat offset\<rparr>)"
  using assms by (simp add: mmap_seek_def mmap_read_bytes_def)

lemma read_chunks_seekable:
  assumes "4 \<le> length (area_bytes a)"
    and "list_all (\<lambda>p. 0 \<le> fst p \<and> fst p \<le> int (length (area_bytes a))
                      \<and> fits_ssize_t (snd p)) ps"
  shows "\<exists>data' a'. read_chunks a 0 ps data = (Inr data', a')
           \<and> length data' = length data + length ps
           \<and> length (area_bytes a') = length (area_bytes a)
           \<and> (ps = [] \<longrightarrow> a' = a)
           \<and> (ps \<noteq> [] \<longrightarrow> (\<exists>a''. a' = uint32_set a'' 0 (fst (last ps) + snd (last ps))
                  \<and> length (area_bytes a'') = length (area_bytes a)
                  \<and> (8 \<le> length (area_bytes a) \<longrightarrow> load_data_end a'' = load_data_end a)))"
  using assms
proof (induction ps arbitrary: a data)
  case Nil
  then show ?case by simp
next
  case (Cons p ps)
  obtain offset len where p: "p = (offset, len)"
    by (cases p)
  have seek: "mmap_seek a offset = Inr (a\<lparr>area_pos := nat offset\<rparr>)"
    using Cons.prems p by (simp add: mmap_seek_def)
  have "fits_ssize_t len"
    using Cons.prems p by simp
  then obtain bs a2 where rd: "mmap_read_bytes (a\<lparr>area_pos := nat offset\<rparr>) len = Inr (bs, a2)"
    by (simp add: mmap_read_bytes_def Let_def)
  then have a2: "area_bytes a2 = area_bytes a"
    by (auto simp: mmap_read_bytes_def Let_def split: if_splits)
  then have e2: "load_data_end a2 = load_data_end a"
    by (simp add: load_data_end_def uint32_value_def)
  let ?a3 = "uint32_set a2 0 (offset + len)"
  have len3: "length (area_bytes ?a3) = length (area_bytes a)"
    using Cons.prems(1) a2 by (simp add: length_uint32_set)
  have e3: "load_data_end ?a3 = load_data_end a" if "8 \<le> length (area_bytes a)"
    using that a2 e2 by (simp add: load_data_end_kept)
  have unfold: "read_chunks a 0 (p # ps) data = read_chunks ?a3 0 ps (data @ [bs])"
    by (simp add: p seek rd)
  show ?case
  proof (cases "ps = []")
    case True
    with unfold len3 a2 e2 p show ?thesis by auto
  next
    case False
    have "\<exists>data' a'. read_chunks ?a3 0 ps (data @ [bs]) = (Inr data', a')
           \<and> length data' = length (data @ [bs]) + length ps
           \<and> length (area_bytes a') = length (area_bytes ?a3)
           \<and> (ps = [] \<longrightarrow> a' = ?a3)
           \<and> (ps \<noteq> [] \<longrightarrow> (\<exists>a''. a' = uint32_set a'' 0 (fst (last ps) + snd (last ps))
                  \<and> length (area_bytes a'') = length (area_bytes ?a3)
                  \<and> (8 \<le> length (area_bytes ?a3) \<longrightarrow> load_data_end a'' = load_data_end ?a3)))"
      using Cons.prems len3 by (intro Cons.IH) simp_all
    with False unfold len3 e3 show ?thesis
      by auto
  qed
qed

lemma mmap_read_cursors:
  assumes long: "8 \<le> length (area_bytes a)" and d: "d \<noteq> []"
    and inside: "list_all (\<lambda>p. 0 \<le> fst p \<and> fst p \<le> int (length (area_bytes a))
                               \<and> 0 \<le> snd p \<and> snd p < 2 ^ 63) d"
    and last: "0 \<le> fst (last d) + snd (last d)" "fst (last d) + snd (last d) < 2 ^ 32"
  shows "load_data_start (snd (mmap_read a d)) = fst (last d) + snd (last d)"
    and "load_data_end (snd (mmap_read a d)) = load_data_end a"
    and "length (area_bytes (snd (mmap_read a d))) = length (area_bytes a)"
proof -
  let ?v = "fst (last d) + snd (last d)"
  have "\<exists>a''. snd (mmap_read a d) = uint32_set a'' 0 ?v
      \<and> length (area_bytes a'') = length (area_bytes a) \<and> load_data_end a'' = load_data_end a"
  proof (cases "\<exists>p. d = [p]")
    case True
    then obtain offset len where "d = [(offset, len)]"
      by auto
    with inside long mmap_read_one [of a len offset] show ?thesis
      by auto
  next
    case False
    have seekable: "list_all (\<lambda>p. 0 \<le> fst p \<and> fst p \<le> int (length (area_bytes a))
                                 \<and> fits_ssize_t (snd p)) d"
      using inside by (fastforce simp: list_all_iff fits_ssize_t_def)
    obtain data' a' a'' where rc: "read_chunks a 0 d [] = (Inr data', a')"
      and a': "a' = uint32_set a'' 0 ?v" "length (area_bytes a'') = length (area_bytes a)"
        "load_data_end a'' = load_data_end a"
      using read_chunks_seekable [OF _ seekable, of "[]"] long d by auto
    have "mmap_read a d = (Inr (concat data'), a')"
    proof (cases d)
      case Nil
      with d show ?thesis by simp
    next
      case (Cons p ps)
      with False have "ps \<noteq> []" by auto
      then obtain q qs where "ps = q # qs" by (cases ps) auto
      with Cons rc long show ?thesis
        by (simp add: mmap_read_def int_from_buffer_0 del: read_chunks.simps split: prod.splits)
    qed
    with a' show ?thesis by auto
  qed
  then obtain a'' where r: "snd (mmap_read a d) = uint32_set a'' 0 ?v"
    and a'': "length (area_bytes a'') = length (area_bytes a)" "load_data_end a'' = load_data_end a"
    by blast
  show "load_data_start (snd (mmap_read a d)) = ?v"
    using long a'' last by (simp add: r load_data_start_stored)
  show "load_data_end (snd (mmap_read a d)) = load_data_end a"
    using long a'' by (simp add: r load_data_end_kept)
  show "length (area_bytes (snd (mmap_read a d))) = length (area_bytes a)"
    using long a'' by (simp add: r length_uint32_set)
qed

lemma read_chunks_Cons:
  "read_chunks a c (p # ps) data =
     (case read_chunks a c [p] data of
        (Inl e, a') \<Rightarrow> (Inl e, a')
      | (Inr data', a') \<Rightarrow> read_chunks a' c ps data')"
  by (cases p) (simp split: sum.splits prod.splits)

lemma read_chunks_one:
  assumes "4 \<le> length (area_bytes a)" and "0 \<le> offset" and "offset \<le> int (length (area_bytes a))"
    and "0 \<le> offset + len" and "offset + len < 2 ^ 32" and "fits_ssize_t len"
  shows "\<exists>bs a'. read_chunks a 0 [(offset, len)] data = (Inr (data @ [bs]), a')
           \<and> load_data_start a' = offset + len
           \<and> length (area_bytes a') = length (area_bytes a)"
proof -
  have seek: "mmap_seek a offset = Inr (a\<lparr>area_pos := nat offset\<rparr>)"
    using assms by (simp add: mmap_seek_def)
  obtain bs a2 where rd: "mmap_read_bytes (a\<lparr>area_pos := nat offset\<rparr>) len = Inr (bs, a2)"
    using assms by (simp add: mmap_read_bytes_def Let_def)
  then have a2: "area_bytes a2 = area_bytes a"
    by (auto simp: mmap_read_bytes_def Let_def split: if_splits)
  have "read_chunks a 0 [(offset, len)] data = (Inr (data @ [bs]), uint32_set a2 0 (offset + len))"
    by (simp add: seek rd)
  moreover have "load_data_start (uint32_set a2 0 (offset + len)) = offset + len"
    using assms a2 by (simp add: load_data_start_stored)
  moreover have "length (area_bytes (uint32_set a2 0 (offset + len))) = length (area_bytes a)"
    using assms a2 by (simp add: length_uint32_set)
  ultimately show ?thesis by blast
qed

text \<open>
  Claim C10. \<^verbatim>\<open>mmap_read\<close> itself advances \<open>data_start\<close>, in an area that holds the
  header and for lengths that the array type and \<^verbatim>\<open>mmap.read\<close> accept (a length
  from 0 for the array, and within the signed size type for both). With one pair
  it stores \<open>offset + length\<close> in \<open>data_start\<close>, and the array it returns for a
  range inside the area is taken from the area after that store. With two pairs
  the loop stores \<open>offset + length\<close> of the first pair after copying it, goes on
  from that area with the second pair, and leaves \<open>data_start\<close> at
  \<open>offset + length\<close> of the second pair. The area that \<^verbatim>\<open>mmap_read\<close> leaves already
  has the cursor advanced: no other operation releases the space.
\<close>

theorem mmap_read_advances_data_start:
  assumes long: "8 \<le> length (area_bytes a)"
  shows "(0 \<le> len \<and> len < 2 ^ 63 \<and> 0 \<le> offset + len \<and> offset + len < 2 ^ 32 \<longrightarrow>
            load_data_start (snd (mmap_read a [(offset, len)])) = offset + len)
       \<and> (0 \<le> len \<and> len < 2 ^ 63 \<and> 0 \<le> offset
          \<and> offset + len \<le> int (length (area_bytes a)) \<longrightarrow>
            mmap_read a [(offset, len)]
              = (Inr (read_at (area_bytes (uint32_set a 0 (offset + len))) (nat offset) (nat len)),
                 uint32_set a 0 (offset + len)))
       \<and> (0 \<le> o1 \<and> o1 \<le> int (length (area_bytes a)) \<and> 0 \<le> o1 + l1 \<and> o1 + l1 < 2 ^ 32
          \<and> 0 \<le> o2 \<and> o2 \<le> int (length (area_bytes a)) \<and> 0 \<le> o2 + l2 \<and> o2 + l2 < 2 ^ 32
          \<and> fits_ssize_t l1 \<and> fits_ssize_t l2 \<longrightarrow>
            (\<exists>bs1 a1 bs2 a2.
                read_chunks a 0 [(o1, l1)] [] = (Inr [bs1], a1)
              \<and> load_data_start a1 = o1 + l1
              \<and> read_chunks a1 0 [(o2, l2)] [bs1] = (Inr [bs1, bs2], a2)
              \<and> load_data_start a2 = o2 + l2
              \<and> mmap_read a [(o1, l1), (o2, l2)] = (Inr (bs1 @ bs2), a2)))"
proof -
  have one: "load_data_start (snd (mmap_read a [(offset, len)])) = offset + len"
    if "0 \<le> len \<and> len < 2 ^ 63 \<and> 0 \<le> offset + len \<and> offset + len < 2 ^ 32"
    using that long by (simp add: mmap_read_one load_data_start_stored)
  have view: "mmap_read a [(offset, len)]
      = (Inr (read_at (area_bytes (uint32_set a 0 (offset + len))) (nat offset) (nat len)),
         uint32_set a 0 (offset + len))"
    if "0 \<le> len \<and> len < 2 ^ 63 \<and> 0 \<le> offset
        \<and> offset + len \<le> int (length (area_bytes a))"
    using that long by (intro mmap_read_single) simp_all
  have two: "\<exists>bs1 a1 bs2 a2.
                read_chunks a 0 [(o1, l1)] [] = (Inr [bs1], a1)
              \<and> load_data_start a1 = o1 + l1
              \<and> read_chunks a1 0 [(o2, l2)] [bs1] = (Inr [bs1, bs2], a2)
              \<and> load_data_start a2 = o2 + l2
              \<and> mmap_read a [(o1, l1), (o2, l2)] = (Inr (bs1 @ bs2), a2)"
    if h: "0 \<le> o1 \<and> o1 \<le> int (length (area_bytes a)) \<and> 0 \<le> o1 + l1 \<and> o1 + l1 < 2 ^ 32
          \<and> 0 \<le> o2 \<and> o2 \<le> int (length (area_bytes a)) \<and> 0 \<le> o2 + l2 \<and> o2 + l2 < 2 ^ 32
          \<and> fits_ssize_t l1 \<and> fits_ssize_t l2"
  proof -
    obtain bs1 a1 where r1: "read_chunks a 0 [(o1, l1)] [] = (Inr ([] @ [bs1]), a1)"
      and s1: "load_data_start a1 = o1 + l1" and n1: "length (area_bytes a1) = length (area_bytes a)"
      using read_chunks_one [of a o1 l1 "[]"] h long by auto
    obtain bs2 a2 where r2: "read_chunks a1 0 [(o2, l2)] [bs1] = (Inr ([bs1] @ [bs2]), a2)"
      and s2: "load_data_start a2 = o2 + l2"
      using read_chunks_one [of a1 o2 l2 "[bs1]"] h long n1 by auto
    have "read_chunks a 0 [(o1, l1), (o2, l2)] [] = (Inr [bs1, bs2], a2)"
      using r1 r2 by (subst read_chunks_Cons) (simp del: read_chunks.simps)
    then have "mmap_read a [(o1, l1), (o2, l2)] = (Inr (bs1 @ bs2), a2)"
      using long by (simp add: mmap_read_def int_from_buffer_0 del: read_chunks.simps)
    with r1 r2 s1 s2 show ?thesis
      by (intro exI [of _ bs1] exI [of _ a1] exI [of _ bs2] exI [of _ a2]) simp
  qed
  from one view two show ?thesis by blast
qed

theorem mmap_read_advances_data_start_witness:
  "load_data_start
     (snd (mmap_read \<lparr>area_bytes = [0,0,0,0, 0,0,0,0, 1,2,3,4, 5,6,7,8], area_pos = 0\<rparr> [(9, 3)])) = 12
   \<and> mmap_read \<lparr>area_bytes = [0,0,0,0, 0,0,0,0, 1,2,3,4, 5,6,7,8], area_pos = 0\<rparr> [(12, 4), (8, 2)]
       = (Inr [5, 6, 7, 8, 1, 2],
          \<lparr>area_bytes = [10,0,0,0, 0,0,0,0, 1,2,3,4, 5,6,7,8], area_pos = 10\<rparr>)
   \<and> load_data_start
        (snd (read_chunks \<lparr>area_bytes = [0,0,0,0, 0,0,0,0, 1,2,3,4, 5,6,7,8], area_pos = 0\<rparr>
               0 [(12, 4)] [])) = 16"
proof -
  let ?a = "\<lparr>area_bytes = [0,0,0,0, 0,0,0,0, 1,2,3,4, 5,6,7,8 :: byte], area_pos = 0\<rparr>"
  have long: "8 \<le> length (area_bytes ?a)"
    by simp
  have "load_data_start (snd (mmap_read ?a [(9, 3)])) = 12"
    using mmap_read_advances_data_start [OF long, of 3 9 0 0 0 0, THEN conjunct1] by simp
  moreover have "mmap_read ?a [(12, 4), (8, 2)]
       = (Inr [5, 6, 7, 8, 1, 2],
          \<lparr>area_bytes = [10,0,0,0, 0,0,0,0, 1,2,3,4, 5,6,7,8], area_pos = 10\<rparr>)"
    by code_simp
  moreover have "load_data_start (snd (read_chunks ?a 0 [(12, 4)] [])) = 16"
    by code_simp
  ultimately show ?thesis by blast
qed

section \<open>Releasing a descriptor\<close>

text \<open>
  Claim C6, as the code has it. Releasing a descriptor, which is reading it, sets
  \<open>data_start\<close> to \<open>offset + length\<close> of the last pair of that descriptor,
  whatever \<open>data_start\<close> was before: for a descriptor whose offsets lie in the
  area and whose lengths are all between 0 and the bound of the signed size type,
  so that no read of the loop raises. So releasing the same descriptor twice leaves
  \<open>data_start\<close> where the first release put it, and releasing a descriptor \<open>d\<close>
  after any other descriptor \<open>d'\<close>, a later one included, puts \<open>data_start\<close> at
  the end of \<open>d\<close>.
\<close>

theorem release_sets_data_start:
  assumes long: "8 \<le> length (area_bytes a)"
    and d: "d \<noteq> []"
      "list_all (\<lambda>p. 0 \<le> fst p \<and> fst p \<le> int (length (area_bytes a))
                    \<and> 0 \<le> snd p \<and> snd p < 2 ^ 63) d"
      "fst (last d) + snd (last d) < 2 ^ 32"
    and d': "d' \<noteq> []"
      "list_all (\<lambda>p. 0 \<le> fst p \<and> fst p \<le> int (length (area_bytes a))
                    \<and> 0 \<le> snd p \<and> snd p < 2 ^ 63) d'"
      "fst (last d') + snd (last d') < 2 ^ 32"
  shows "load_data_start (snd (mmap_read a d)) = fst (last d) + snd (last d)
       \<and> load_data_start (snd (mmap_read (snd (mmap_read a d)) d))
           = load_data_start (snd (mmap_read a d))
       \<and> load_data_start (snd (mmap_read (snd (mmap_read a d')) d)) = fst (last d) + snd (last d)"
proof -
  have nonneg: "0 \<le> fst (last e) + snd (last e)"
    if "e \<noteq> []"
      "list_all (\<lambda>p. 0 \<le> fst p \<and> fst p \<le> int (length (area_bytes b))
                    \<and> 0 \<le> snd p \<and> snd p < 2 ^ 63) e"
    for e b
  proof -
    have "last e \<in> set e" using that(1) by simp
    with that(2) show ?thesis by (auto simp: list_all_iff)
  qed
  have set_start: "load_data_start (snd (mmap_read b d)) = fst (last d) + snd (last d)"
    if "length (area_bytes b) = length (area_bytes a)" for b
    using that long d nonneg [of d b] by (intro mmap_read_cursors(1)) simp_all
  have kept: "length (area_bytes (snd (mmap_read a e))) = length (area_bytes a)"
    if "e \<noteq> []"
      "list_all (\<lambda>p. 0 \<le> fst p \<and> fst p \<le> int (length (area_bytes a))
                    \<and> 0 \<le> snd p \<and> snd p < 2 ^ 63) e"
      "fst (last e) + snd (last e) < 2 ^ 32" for e
    using that long nonneg [of e a] by (intro mmap_read_cursors(3)) simp_all
  show ?thesis
    using set_start [of a] set_start [OF kept [OF d]] set_start [OF kept [OF d']] by simp
qed

theorem release_sets_data_start_witness:
  "load_data_start (snd (mmap_read \<lparr>area_bytes = replicate 32 0, area_pos = 0\<rparr> [(8, 4)])) = 12
   \<and> load_data_start
        (snd (mmap_read (snd (mmap_read \<lparr>area_bytes = replicate 32 0, area_pos = 0\<rparr> [(12, 4)]))
               [(8, 4)])) = 12"
proof -
  let ?a = "\<lparr>area_bytes = replicate 32 (0 :: byte), area_pos = 0\<rparr>"
  have long: "8 \<le> length (area_bytes ?a)"
    by simp
  have d: "[(8, 4)] \<noteq> ([] :: (int \<times> int) list)"
      "list_all (\<lambda>p. 0 \<le> fst p \<and> fst p \<le> int (length (area_bytes ?a))
                    \<and> 0 \<le> snd p \<and> snd p < 2 ^ 63) [(8, 4 :: int)]"
      "fst (last [(8, 4 :: int)]) + snd (last [(8 :: int, 4)]) < (2 ^ 32 :: int)"
    by simp_all
  have d': "[(12, 4)] \<noteq> ([] :: (int \<times> int) list)"
      "list_all (\<lambda>p. 0 \<le> fst p \<and> fst p \<le> int (length (area_bytes ?a))
                    \<and> 0 \<le> snd p \<and> snd p < 2 ^ 63) [(12, 4 :: int)]"
      "fst (last [(12, 4 :: int)]) + snd (last [(12 :: int, 4)]) < (2 ^ 32 :: int)"
    by simp_all
  from release_sets_data_start [OF long d d'] show ?thesis
    by simp
qed

text \<open>
  The claim as stated has \<open>data_start\<close> never move backwards. After the releases
  of \<open>[(8, 4)]\<close> and then \<open>[(12, 4)]\<close> the cursor is at 16; releasing the
  superseded \<open>[(8, 4)]\<close> again takes it back to 12.
\<close>

theorem release_moves_back_counterexample:
  "load_data_start
     (snd (mmap_read
        (snd (mmap_read (snd (mmap_read \<lparr>area_bytes = replicate 32 0, area_pos = 0\<rparr> [(8, 4)]))
               [(12, 4)]))
        [(8, 4)]))
   < load_data_start
       (snd (mmap_read (snd (mmap_read \<lparr>area_bytes = replicate 32 0, area_pos = 0\<rparr> [(8, 4)]))
              [(12, 4)]))"
  by code_simp

section \<open>Pending ranges never overlap\<close>

lemma chain_le: "chain lo hi ps \<Longrightarrow> lo \<le> hi"
proof (induction ps arbitrary: lo)
  case Nil
  then show ?case by simp
next
  case (Cons p ps)
  then have "lo \<le> fst p" "0 \<le> snd p" "fst p + snd p \<le> hi"
    by simp_all
  then show ?case by linarith
qed

lemma chain_mono: "chain lo hi ps \<Longrightarrow> lo' \<le> lo \<Longrightarrow> hi \<le> hi' \<Longrightarrow> chain lo' hi' ps"
  by (induction ps arbitrary: lo lo') auto

lemma chain_snoc:
  "chain lo hi ps \<Longrightarrow> hi \<le> fst p \<Longrightarrow> 0 \<le> snd p \<Longrightarrow> fst p + snd p \<le> hi'
   \<Longrightarrow> chain lo hi' (ps @ [p])"
  by (induction ps arbitrary: lo) (auto dest: chain_le)

lemma chain_release:
  "chain lo hi (ps @ qs) \<Longrightarrow> ps \<noteq> [] \<Longrightarrow>
   chain (fst (last ps) + snd (last ps)) hi qs \<and> lo \<le> fst (last ps) + snd (last ps)"
proof (induction ps arbitrary: lo)
  case Nil
  then show ?case by simp
next
  case (Cons p ps)
  show ?case
  proof (cases "ps = []")
    case True
    with Cons.prems show ?thesis by auto
  next
    case False
    with Cons.prems Cons.IH [of "fst p + snd p"] show ?thesis by auto
  qed
qed

lemma chain_bounds:
  "chain lo hi ps \<Longrightarrow> p \<in> set ps \<Longrightarrow> lo \<le> fst p \<and> 0 \<le> snd p \<and> fst p + snd p \<le> hi"
proof (induction ps arbitrary: lo)
  case Nil
  then show ?case by simp
next
  case (Cons q ps)
  from Cons.prems(1) have q: "lo \<le> fst q" "0 \<le> snd q" and rest: "chain (fst q + snd q) hi ps"
    by simp_all
  show ?case
  proof (cases "p = q")
    case True
    with q chain_le [OF rest] show ?thesis by simp
  next
    case False
    with Cons.prems(2) have "p \<in> set ps" by simp
    with Cons.IH [OF rest] q show ?thesis by auto
  qed
qed

lemma chain_separate: "chain lo hi ps \<Longrightarrow> pairwise_separate ps"
proof (induction ps arbitrary: lo)
  case Nil
  then show ?case by simp
next
  case (Cons q ps)
  from Cons.prems have rest: "chain (fst q + snd q) hi ps"
    by simp
  have "separate q p" if "p \<in> set ps" for p
    using chain_bounds [OF rest that] by (simp add: separate_def)
  with Cons.IH [OF rest] show ?case
    by (simp add: list_all_iff)
qed

lemma pairwise_separate_append:
  "pairwise_separate (ps @ qs) \<longleftrightarrow>
     pairwise_separate ps \<and> pairwise_separate qs \<and> (\<forall>p\<in>set ps. \<forall>q\<in>set qs. separate p q)"
  by (induction ps) (auto simp: list_all_iff)

lemma laid_out_sound:
  assumes "laid_out n start endp ps" and "8 \<le> start" and "start \<le> n" and "endp \<le> n"
  shows "list_all (in_data_area n) ps \<and> pairwise_separate ps"
proof (cases "endp < start")
  case False
  with assms have c: "chain start endp ps"
    by (simp add: laid_out_def)
  have "in_data_area n p" if "p \<in> set ps" for p
    using chain_bounds [OF c that] assms by (simp add: in_data_area_def)
  with chain_separate [OF c] show ?thesis
    by (simp add: list_all_iff)
next
  case True
  with assms obtain ps1 ps2 where ps: "ps = ps1 @ ps2"
    and c1: "chain start n ps1" and c2: "chain 8 endp ps2"
    by (auto simp: laid_out_def)
  have in1: "in_data_area n p" if "p \<in> set ps1" for p
    using chain_bounds [OF c1 that] assms by (simp add: in_data_area_def)
  have in2: "in_data_area n p" if "p \<in> set ps2" for p
    using chain_bounds [OF c2 that] assms by (simp add: in_data_area_def)
  have "separate p q" if "p \<in> set ps1" "q \<in> set ps2" for p q
    using chain_bounds [OF c1 that(1)] chain_bounds [OF c2 that(2)] True
    by (simp add: separate_def)
  with chain_separate [OF c1] chain_separate [OF c2] in1 in2 show ?thesis
    by (auto simp: ps pairwise_separate_append list_all_iff)
qed

lemma laid_out_release:
  assumes lo: "laid_out n start endp (d @ rest)" and d: "d \<noteq> []"
  shows "laid_out n (fst (last d) + snd (last d)) endp rest"
proof (cases "endp < start")
  case False
  with lo have "chain start endp (d @ rest)"
    by (simp add: laid_out_def)
  from chain_release [OF this d] have c: "chain (fst (last d) + snd (last d)) endp rest"
    by simp
  with chain_le [OF c] show ?thesis
    by (simp add: laid_out_def)
next
  case True
  let ?e = "fst (last d) + snd (last d)"
  from True lo obtain ps1 ps2 where eq: "d @ rest = ps1 @ ps2"
    and c1: "chain start n ps1" and c2: "chain 8 endp ps2"
    by (auto simp: laid_out_def)
  from eq consider us where "d @ us = ps1" "rest = us @ ps2"
    | us where "d = ps1 @ us" "us @ rest = ps2" "us \<noteq> []"
    by (auto simp: append_eq_append_conv2) (metis append_Nil2 append_Nil)
  then show ?thesis
  proof cases
    case 1
    with c1 have "chain start n (d @ us)" by simp
    from chain_release [OF this d] have "chain ?e n us" and "start \<le> ?e"
      by simp_all
    with True c2 1 show ?thesis
      by (auto simp: laid_out_def)
  next
    case 2
    then have "last d = last us" by simp
    moreover from 2 c2 have "chain 8 endp (us @ rest)" by simp
    from chain_release [OF this 2(3)] have c: "chain (fst (last us) + snd (last us)) endp rest"
      by simp
    ultimately show ?thesis
      using chain_le [OF c] by (simp add: laid_out_def)
  qed
qed

lemma laid_out_bounds:
  assumes "laid_out n start endp ps" and "8 \<le> start" and "start \<le> n" and "endp \<le> n"
    and "p \<in> set ps"
  shows "8 \<le> fst p" and "0 \<le> snd p" and "fst p + snd p \<le> n"
  using laid_out_sound [OF assms(1-4)] assms(5) by (auto simp: list_all_iff in_data_area_def)

lemma consistent_read:
  assumes "consistent n (a, pending)"
  shows "consistent n (step n (a, pending) Read)"
proof (cases pending)
  case Nil
  with assms show ?thesis by simp
next
  case (Cons d rest)
  let ?start = "max 8 (load_data_start a)" and ?endp = "max 8 (load_data_end a)"
  let ?e = "fst (last d) + snd (last d)"
  let ?a' = "snd (mmap_read a d)"
  from assms Cons have len: "int (length (area_bytes a)) = n" and n: "n \<le> 2 ^ 32"
    and ds: "?start \<le> n" and de: "?endp \<le> n"
    and d: "d \<noteq> []" "?e < n"
    and rest: "list_all (\<lambda>d. d \<noteq> [] \<and> fst (last d) + snd (last d) < n) rest"
    and lo: "laid_out n ?start ?endp (d @ concat rest)"
    by (simp_all add: consistent_def)
  have long: "8 \<le> length (area_bytes a)"
    using len ds by linarith
  have bounds: "8 \<le> fst p \<and> 0 \<le> snd p \<and> fst p + snd p \<le> n" if "p \<in> set d" for p
    using laid_out_bounds [OF lo _ ds de, of p] that by simp
  have "0 \<le> fst p \<and> fst p \<le> int (length (area_bytes a)) \<and> 0 \<le> snd p \<and> snd p < 2 ^ 63"
    if "p \<in> set d" for p
    using bounds [OF that] len n by simp
  then have inside:
    "list_all (\<lambda>p. 0 \<le> fst p \<and> fst p \<le> int (length (area_bytes a))
                    \<and> 0 \<le> snd p \<and> snd p < 2 ^ 63) d"
    by (simp add: list_all_iff)
  have "last d \<in> set d"
    using d by simp
  from bounds [OF this] have e8: "8 \<le> ?e"
    by linarith
  have e32: "?e < 2 ^ 32"
    using d n by linarith
  have s': "load_data_start ?a' = ?e" and e': "load_data_end ?a' = load_data_end a"
    and l': "length (area_bytes ?a') = length (area_bytes a)"
    using mmap_read_cursors [OF long d(1) inside _ e32] e8 by simp_all
  have "laid_out n ?e ?endp (concat rest)"
    using lo d(1) by (rule laid_out_release)
  then have "consistent n (?a', rest)"
    using s' e' l' len n de d e8 rest by (simp add: consistent_def)
  with Cons show ?thesis by simp
qed

lemma laid_out_wrapped:
  "endp < start \<Longrightarrow> chain start n ps1 \<Longrightarrow> chain 8 endp ps2
   \<Longrightarrow> laid_out n start endp (ps1 @ ps2)"
  by (auto simp: laid_out_def)

lemma written_area:
  assumes long: "8 \<le> length (area_bytes a)"
    and B: "length B = length (area_bytes a)" "read_at B 0 4 = read_at (area_bytes a) 0 4"
    and v: "0 \<le> v" "v < 2 ^ 32"
  shows "length (area_bytes (uint32_set (a\<lparr>area_bytes := B, area_pos := k\<rparr>) 4 v))
           = length (area_bytes a)"
    and "load_data_start (uint32_set (a\<lparr>area_bytes := B, area_pos := k\<rparr>) 4 v)
           = load_data_start a"
    and "load_data_end (uint32_set (a\<lparr>area_bytes := B, area_pos := k\<rparr>) 4 v) = v"
proof -
  let ?A = "a\<lparr>area_bytes := B, area_pos := k\<rparr>"
  have longA: "8 \<le> length (area_bytes ?A)"
    using long B by simp
  show "length (area_bytes (uint32_set ?A 4 v)) = length (area_bytes a)"
    using longA B by (simp add: length_uint32_set)
  have "load_data_start ?A = load_data_start a"
    using B by (simp add: load_data_start_def uint32_value_def)
  then show "load_data_start (uint32_set ?A 4 v) = load_data_start a"
    using load_data_start_kept [OF longA] by simp
  show "load_data_end (uint32_set ?A 4 v) = v"
    using longA v by (rule load_data_end_stored)
qed

lemma consistent_write:
  assumes "consistent n (a, pending)"
  shows "consistent n (step n (a, pending) (Write data))"
proof -
  let ?l = "int (length data)" and ?B = "area_bytes a"
  let ?ps = "concat pending"
  obtain start endp chunk available
    where acc: "accounting n (load_data_start a) (load_data_end a) = (start, endp, chunk, available)"
    by (cases "accounting n (load_data_start a) (load_data_end a)") auto
  have se: "start = max 8 (load_data_start a)" "endp = max 8 (load_data_end a)"
    using accounting_cases(1,2) [OF acc] by simp_all
  from assms have len: "int (length ?B) = n" and n: "n \<le> 2 ^ 32"
    and ds: "start \<le> n" and de: "endp \<le> n"
    and pend: "list_all (\<lambda>d. d \<noteq> [] \<and> fst (last d) + snd (last d) < n) pending"
    and lo: "laid_out n start endp ?ps"
    by (simp_all add: consistent_def se)
  have s8: "8 \<le> start" "8 \<le> endp"
    using se by simp_all
  have long: "8 \<le> length ?B"
    using len ds s8 by linarith
  show ?thesis
  proof (cases "?l \<le> n - 8 \<and> ?l < available")
    case False
    then have "mmap_write a n data = (Inr (TooSmall, available - ?l), a)
        \<or> mmap_write a n data = (Inr (Full, available - ?l), a)"
      using mmap_write_refused [OF long acc, of data] by (cases "?l > n - 8") auto
    with assms show ?thesis by auto
  next
    case True
    then obtain d a' where w: "mmap_write a n data = (Inr (Chunks d, available - ?l), a')"
      using mmap_write_succeeds [OF len _ _ acc, of data] ds de se by auto
    have goal: "consistent n (a', pending @ [d])"
      if l': "int (length (area_bytes a')) = n"
        and s': "load_data_start a' = load_data_start a"
        and e': "max 8 (load_data_end a') = endp'" "endp' \<le> n"
        and d: "d \<noteq> []" "fst (last d) + snd (last d) < n"
        and lo': "laid_out n start endp' (?ps @ d)"
      for endp'
      using that n ds pend by (simp add: consistent_def se)
    from w acc show ?thesis
    proof (cases rule: mmap_write_ChunksE)
      case contiguous
      let ?W = "write_at ?B (nat endp) data"
      have fit: "nat endp + length data \<le> length ?B"
        using contiguous(3) s8 by linarith
      have W: "length ?W = length ?B" "read_at ?W 0 4 = read_at ?B 0 4"
        using fit s8 by (simp_all add: length_write_at read_at_write_at_before)
      have wrapped: "endp + ?l < start" if "endp < start"
        using accounting_cases(3) [OF acc that] contiguous(1) by simp
      have "endp + ?l < n" if "\<not> endp < start"
        using accounting_cases(4) [OF acc that] contiguous(1) by simp
      with wrapped ds have e: "endp + ?l < n"
        by (cases "endp < start") auto
      then have v: "0 \<le> endp + ?l" "endp + ?l < 2 ^ 32"
        using s8 n by linarith+
      note after = written_area [OF long W v, of "nat endp + length data"]
      have lo': "laid_out n start (endp + ?l) (?ps @ d)"
      proof (cases "endp < start")
        case True
        with lo obtain ps1 ps2 where "?ps = ps1 @ ps2" "chain start n ps1"
          and c2: "chain 8 endp ps2"
          by (auto simp: laid_out_def)
        moreover have "chain 8 (endp + ?l) (ps2 @ [(endp, ?l)])"
          using chain_snoc [OF c2, of "(endp, ?l)" "endp + ?l"] by simp
        ultimately have "laid_out n start (endp + ?l) (ps1 @ ps2 @ [(endp, ?l)])"
          using wrapped [OF True] by (intro laid_out_wrapped)
        with \<open>?ps = ps1 @ ps2\<close> show ?thesis
          by (simp add: contiguous(2))
      next
        case False
        with lo have c: "chain start endp ?ps"
          by (simp add: laid_out_def)
        have "chain start (endp + ?l) (?ps @ [(endp, ?l)])"
          using chain_snoc [OF c, of "(endp, ?l)" "endp + ?l"] by simp
        with False contiguous(2) show ?thesis
          by (simp add: laid_out_def)
      qed
      have "consistent n (a', pending @ [d])"
        using after e s8 lo' len by (intro goal [of "endp + ?l"]) (simp_all add: contiguous)
      with w show ?thesis by simp
    next
      case restart
      let ?W = "write_at ?B 8 data"
      have fit: "8 + length data \<le> length ?B"
        using restart(4) by linarith
      have W: "length ?W = length ?B" "read_at ?W 0 4 = read_at ?B 0 4"
        using fit by (simp_all add: length_write_at read_at_write_at_before)
      have below: "8 + ?l < start"
        using restart(2) by simp
      then have v: "0 \<le> 8 + ?l" "8 + ?l < 2 ^ 32"
        using ds n by linarith+
      note after = written_area [OF long W v, of "8 + length data"]
      have nw: "\<not> endp < start"
        using accounting_cases(3) [OF acc] restart(1) True by auto
      with lo have "chain start endp ?ps"
        by (simp add: laid_out_def)
      then have "chain start n ?ps"
        using de by (auto intro: chain_mono)
      moreover have "chain 8 (8 + ?l) [(8, ?l)]"
        by simp
      ultimately have lo': "laid_out n start (8 + ?l) (?ps @ d)"
        unfolding restart(3) using below by (intro laid_out_wrapped)
      have "consistent n (a', pending @ [d])"
        using after below ds lo' len by (intro goal [of "8 + ?l"]) (simp_all add: restart)
      with w show ?thesis by simp
    next
      case split
      let ?s1 = "slice_to data chunk" and ?s2 = "slice_from data chunk"
      let ?X = "write_at ?B (nat endp) ?s1"
      let ?Y = "write_at ?X 8 ?s2"
      have ch: "chunk = n - endp" "available = chunk + (start - 8)"
        using accounting_cases(4) [OF acc] split(2) by simp_all
      have chunk0: "0 \<le> chunk"
        using ch de by simp
      have X: "length ?X = length ?B" "read_at ?X 0 4 = read_at ?B 0 4"
        using split(5) s8 by (simp_all add: length_write_at read_at_write_at_before)
      then have Y: "length ?Y = length ?B" "read_at ?Y 0 4 = read_at ?B 0 4"
        using split(6) by (simp_all add: length_write_at read_at_write_at_before)
      have below: "8 + (?l - chunk) < start"
        using True ch by linarith
      have v: "0 \<le> 8 + (?l - chunk)" "8 + (?l - chunk) < 2 ^ 32"
        using split(1) below ds n by linarith+
      note after = written_area [OF long Y v, of "8 + length ?s2"]
      from lo split(2) have c: "chain start endp ?ps"
        by (simp add: laid_out_def)
      have "chain start n (?ps @ [(endp, chunk)])"
        using chain_snoc [OF c, of "(endp, chunk)" n] chunk0 ch by simp
      moreover have "chain 8 (8 + (?l - chunk)) [(8, ?l - chunk)]"
        using split(1) by simp
      ultimately have "laid_out n start (8 + (?l - chunk))
          ((?ps @ [(endp, chunk)]) @ [(8, ?l - chunk)])"
        using below by (intro laid_out_wrapped)
      then have lo': "laid_out n start (8 + (?l - chunk)) (?ps @ d)"
        by (simp add: split(3))
      have "consistent n (a', pending @ [d])"
        using after below ds lo' len split(1)
        by (intro goal [of "8 + (?l - chunk)"]) (simp_all add: split(3,7))
      with w show ?thesis by simp
    qed
  qed
qed

text \<open>
  Claim C5. Start from a region of size \<open>n \<le> 2^32\<close> whose clamped cursors lie
  within the region and with no descriptor pending, and let the producer write
  and the consumer read the pending descriptors in order, each once, in any
  interleaving. Then every pair \<open>(offset, length)\<close> of a pending descriptor has
  \<open>offset \<ge> 8\<close>, \<open>length \<ge> 0\<close> and \<open>offset + length \<le> n\<close>, so it stays clear of the
  header, and no two pending pairs overlap.
\<close>

theorem pending_ranges_never_overlap:
  assumes "int (length (area_bytes area)) = n" and "n \<le> 2 ^ 32"
    and "max 8 (load_data_start area) \<le> n" and "max 8 (load_data_end area) \<le> n"
    and "run n area acts = (area', pending)"
  shows "list_all (in_data_area n) (concat pending) \<and> pairwise_separate (concat pending)"
proof -
  have step: "consistent n (step n s act)" if "consistent n s" for s act
  proof -
    obtain a q where "s = (a, q)" by (cases s)
    with that show ?thesis
      by (cases act) (simp_all only: consistent_write consistent_read)
  qed
  have fold: "consistent n (foldl (step n) s acts)" if "consistent n s" for s
    using that by (induction acts arbitrary: s) (simp_all add: step)
  have "laid_out n s e []" if "s \<le> n" "8 \<le> e" for s e
    using that by (auto simp: laid_out_def)
  then have "laid_out n (max 8 (load_data_start area)) (max 8 (load_data_end area)) []"
    using assms(3) by simp
  then have "consistent n (area, [])"
    using assms by (simp add: consistent_def)
  from fold [OF this] assms(5) have "consistent n (area', pending)"
    by (simp add: run_def)
  then have lo: "laid_out n (max 8 (load_data_start area')) (max 8 (load_data_end area'))
        (concat pending)"
    and ds: "max 8 (load_data_start area') \<le> n" and de: "max 8 (load_data_end area') \<le> n"
    by (simp_all add: consistent_def)
  from laid_out_sound [OF lo _ ds de] show ?thesis
    by simp
qed

theorem pending_ranges_never_overlap_witness:
  "run 32 \<lparr>area_bytes = replicate 32 0, area_pos = 0\<rparr>
     [Write [1,2,3,4,5,6,7,8,9,10], Write [11,12,13,14,15,16,17,18,19,20], Read,
      Write [21,22,23,24,25,26]]
     = (\<lparr>area_bytes = [18,0,0,0, 10,0,0,0, 25,26,3,4,5,6,7,8,9,10,
                         11,12,13,14,15,16,17,18,19,20, 21,22,23,24],
          area_pos = 10\<rparr>,
        [[(18, 10)], [(28, 4), (8, 2)]])
   \<and> list_all (in_data_area 32) [(18, 10), (28, 4), (8, 2)]
   \<and> pairwise_separate [(18, 10), (28, 4), (8, 2)]"
proof -
  let ?z = "\<lparr>area_bytes = replicate 32 (0 :: byte), area_pos = 0\<rparr>"
  have len: "int (length (area_bytes ?z)) = 32" and n: "(32 :: int) \<le> 2 ^ 32"
    by simp_all
  have ds: "max 8 (load_data_start ?z) \<le> 32" and de: "max 8 (load_data_end ?z) \<le> 32"
    by code_simp+
  have r: "run 32 ?z
     [Write [1,2,3,4,5,6,7,8,9,10], Write [11,12,13,14,15,16,17,18,19,20], Read,
      Write [21,22,23,24,25,26]]
     = (\<lparr>area_bytes = [18,0,0,0, 10,0,0,0, 25,26,3,4,5,6,7,8,9,10,
                         11,12,13,14,15,16,17,18,19,20, 21,22,23,24],
          area_pos = 10\<rparr>,
        [[(18, 10)], [(28, 4), (8, 2)]])"
    by code_simp
  from pending_ranges_never_overlap [OF len n ds de r] r show ?thesis
    by simp
qed

section \<open>Sizes and tokens when the server opens the area\<close>

text \<open>
  Claim C8, as the code has it. For a file that can be opened, off \<^verbatim>\<open>WIN32\<close>:
  when the expected size exceeds the actual size of the file, \<^verbatim>\<open>init_server_mmap\<close>
  fails and returns \<open>(None, 0)\<close>; when the expected size is positive and smaller
  than the actual size, the mismatch is only logged and the area returned maps
  the first expected-size bytes of the file; when the two sizes agree on a
  non-empty file, the whole file is mapped and returned with that size.
\<close>

theorem init_server_mmap_sizes:
  assumes "files mmap_filename = Some content"
  shows "(int (length content) < mmap_size \<longrightarrow>
            init_server_mmap False files mmap_filename mmap_size = (None, 0))
       \<and> (0 < mmap_size \<and> mmap_size < int (length content) \<longrightarrow>
            fst (init_server_mmap False files mmap_filename mmap_size)
              = Some \<lparr>area_bytes = take (nat mmap_size) content, area_pos = 0\<rparr>)
       \<and> (mmap_size = int (length content) \<and> content \<noteq> [] \<longrightarrow>
            init_server_mmap False files mmap_filename mmap_size
              = (Some \<lparr>area_bytes = content, area_pos = 0\<rparr>, mmap_size))"
  using assms by (auto simp: init_server_mmap_def py_mmap_def)

theorem init_server_mmap_sizes_witness:
  "init_server_mmap False [''/tmp/xpra.mmap'' \<mapsto> replicate 16 0] ''/tmp/xpra.mmap'' 32 = (None, 0)
   \<and> init_server_mmap False [''/tmp/xpra.mmap'' \<mapsto> replicate 16 0] ''/tmp/xpra.mmap'' 16
       = (Some \<lparr>area_bytes = replicate 16 0, area_pos = 0\<rparr>, 16)"
proof -
  let ?files = "[''/tmp/xpra.mmap'' \<mapsto> replicate 16 (0 :: byte)]"
  have f: "?files ''/tmp/xpra.mmap'' = Some (replicate 16 0)"
    by simp
  from init_server_mmap_sizes [of ?files "''/tmp/xpra.mmap''" "replicate 16 0" 32]
    init_server_mmap_sizes [of ?files "''/tmp/xpra.mmap''" "replicate 16 0" 16]
  show ?thesis by simp
qed

text \<open>
  The claim as stated has every mismatch fail. A file of 16 bytes opened with an
  expected size of 8 gives back a usable area, of 8 bytes.
\<close>

theorem init_server_mmap_mismatch_counterexample:
  "int (length (replicate 16 (0 :: byte))) \<noteq> 8
   \<and> init_server_mmap False [''/tmp/xpra.mmap'' \<mapsto> replicate 16 0] ''/tmp/xpra.mmap'' 8
       = (Some \<lparr>area_bytes = replicate 8 0, area_pos = 0\<rparr>, 16)"
  by (simp add: init_server_mmap_def py_mmap_def)

text \<open>
  Claim C9. When \<^verbatim>\<open>parse_client_caps\<close> has opened the client's area, with a
  positive size, and the token it reads back at the announced index and width
  differs from the token the client announced (0 when the capabilities hold no
  token), the method returns with the area closed, \<^verbatim>\<open>self.mmap\<close> set to
  \<^verbatim>\<open>None\<close> and \<^verbatim>\<open>self.mmap_size\<close> set to 0.
\<close>

theorem token_mismatch_closes_area:
  assumes named: "caps_file c = Some client_file" "client_file \<noteq> []"
    and supported: "supports_mmap self"
    and path: "\<not> (WIN32 h \<and> take 1 (server_mmap_filename h self client_file) = ''/'')"
      "path_exists h (server_mmap_filename h self client_file)"
    and opened: "init_server_mmap (WIN32 h) (openable h) (server_mmap_filename h self client_file)
        (intget (caps_size c) 0) = (Some m, area_size)" "0 < area_size"
    and token: "read_mmap_token m (intget (caps_token_index c) 0)
        (intget (caps_token_bytes c) DEFAULT_TOKEN_BYTES) = Inr v"
      "v \<noteq> intget (caps_token c) 0"
  shows "parse_client_caps h self c
     = (None,
        self\<lparr>mmap_client_namespace := caps_namespace c, self_mmap := None, self_mmap_size := 0\<rparr>,
        [m])"
  using assms by (auto simp: parse_client_caps_def Let_def)

theorem token_mismatch_closes_area_witness:
  "parse_client_caps
     \<lparr>WIN32 = False, isdir = (\<lambda>p. False), path_exists = (\<lambda>p. p = ''/tmp/xpra.mmap''),
      openable = [''/tmp/xpra.mmap'' \<mapsto> [0,0,0,0, 0,0,0,0, 7,0,0,0, 0,0,0,0]],
      get_int_uuid = 99, randint = (\<lambda>a b. a)\<rparr>
     \<lparr>supports_mmap = True, self_mmap_filename = None, min_mmap_size = 0,
      self_mmap = None, self_mmap_size = 0, mmap_client_token = None,
      mmap_client_token_index = 512, mmap_client_token_bytes = 0,
      mmap_client_namespace = False\<rparr>
     \<lparr>caps_namespace = True, caps_file = Some ''/tmp/xpra.mmap'', caps_size = Some 16,
      caps_token = Some 5, caps_token_index = Some 8, caps_token_bytes = Some 2\<rparr>
   = (None,
      \<lparr>supports_mmap = True, self_mmap_filename = None, min_mmap_size = 0,
       self_mmap = None, self_mmap_size = 0, mmap_client_token = None,
       mmap_client_token_index = 512, mmap_client_token_bytes = 0,
       mmap_client_namespace = True\<rparr>,
      [\<lparr>area_bytes = [0,0,0,0, 0,0,0,0, 7,0,0,0, 0,0,0,0], area_pos = 0\<rparr>])"
proof -
  let ?h = "\<lparr>WIN32 = False, isdir = (\<lambda>p. False), path_exists = (\<lambda>p. p = ''/tmp/xpra.mmap''),
      openable = [''/tmp/xpra.mmap'' \<mapsto> [0,0,0,0, 0,0,0,0, 7,0,0,0, 0,0,0,0 :: byte]],
      get_int_uuid = 99, randint = (\<lambda>a b. a)\<rparr>"
  let ?self = "\<lparr>supports_mmap = True, self_mmap_filename = None, min_mmap_size = 0,
      self_mmap = None, self_mmap_size = 0, mmap_client_token = None,
      mmap_client_token_index = 512, mmap_client_token_bytes = 0,
      mmap_client_namespace = False\<rparr>"
  let ?c = "\<lparr>caps_namespace = True, caps_file = Some ''/tmp/xpra.mmap'', caps_size = Some 16,
      caps_token = Some 5, caps_token_index = Some 8, caps_token_bytes = Some 2\<rparr>"
  let ?m = "\<lparr>area_bytes = [0,0,0,0, 0,0,0,0, 7,0,0,0, 0,0,0,0 :: byte], area_pos = 0\<rparr>"
  have name: "server_mmap_filename ?h ?self ''/tmp/xpra.mmap'' = ''/tmp/xpra.mmap''"
    by (simp add: server_mmap_filename_def)
  have named: "caps_file ?c = Some ''/tmp/xpra.mmap''" "''/tmp/xpra.mmap'' \<noteq> []"
    by simp_all
  have supported: "supports_mmap ?self"
    by simp
  have path: "\<not> (WIN32 ?h \<and> take 1 (server_mmap_filename ?h ?self ''/tmp/xpra.mmap'') = ''/'')"
      "path_exists ?h (server_mmap_filename ?h ?self ''/tmp/xpra.mmap'')"
    by (simp_all add: name)
  have opened: "init_server_mmap (WIN32 ?h) (openable ?h)
        (server_mmap_filename ?h ?self ''/tmp/xpra.mmap'') (intget (caps_size ?c) 0) = (Some ?m, 16)"
      "(0 :: int) < 16"
    by (simp_all add: name intget_def init_server_mmap_def py_mmap_def)
  have token: "read_mmap_token ?m (intget (caps_token_index ?c) 0)
        (intget (caps_token_bytes ?c) DEFAULT_TOKEN_BYTES) = Inr 7"
    by code_simp
  have differs: "7 \<noteq> intget (caps_token ?c) 0"
    by (simp add: intget_def)
  from token_mismatch_closes_area [OF named supported path opened token differs]
  show ?thesis by simp
qed

end
